theory Spec2Isabelle
  imports Main "HOL-Library.Multiset"
begin

section \<open>Data model\<close>

text \<open>
  The service keeps one table, \<open>Contact\<close>. A row has the fields the service reads and
  writes: the auto-incremented id, the two optional contact fields, the optional link to
  another row, the precedence, the creation time (milliseconds) and the soft-delete
  stamp. The column \<open>updatedAt\<close> is never read by the service and is left out. The field
  \<open>id\<close> is called \<open>id_c\<close>, since \<open>id\<close> is the identity function of HOL. A stored
  \<open>null\<close> is \<open>None\<close>. The column \<open>linkPrecedence\<close> is a string that holds one of the
  two values of the enumeration \<open>LinkPrecedence\<close>, the only ones the service writes.
\<close>

datatype LinkPrecedence = PRIMARY | SECONDARY

record Contact =
  id_c :: nat
  phoneNumber :: "string option"
  email :: "string option"
  linkedId :: "nat option"
  linkPrecedence :: LinkPrecedence
  createdAt :: nat
  deletedAt :: "nat option"

text \<open>
  \<open>IdentifyRequest\<close> has two optional string fields; an absent field (\<open>undefined\<close>)
  is \<open>None\<close>. The field names carry the suffix \<open>_r\<close> to keep them apart from the
  columns of the same name.
\<close>

record IdentifyRequest =
  email_r :: "string option"
  phoneNumber_r :: "string option"

record IdentifyResponse =
  primaryContactId :: nat
  emails :: "string list"
  phoneNumbers :: "string list"
  secondaryContactIds :: "nat list"

text \<open>The three \<open>throw new Error(...)\<close> of the service, one constructor per message.\<close>

datatype error =
    SecondaryWithoutLinkedId  \<comment> \<open>Data integrity issue: Secondary contacts without linkedId\<close>
  | NoPrimaryContactFound     \<comment> \<open>Data integrity issue: No primary contact found\<close>
  | NoPrimaryInChain          \<comment> \<open>No primary contact found (response formatting)\<close>

text \<open>
  The store is the table, as a list of rows, and the counter of the id sequence. The
  list is the table in the order in which the database scans it. Every query of the
  service orders by \<open>createdAt\<close> only and compares no ids, so among rows of equal
  \<open>createdAt\<close> the order of an answer is the scan order, whatever the ids are: a store
  may hold a row with a larger id before a row with a smaller one.
\<close>

record Store =
  rows :: "Contact list"
  nextId :: nat

section \<open>JavaScript values\<close>

text \<open>
  Truthiness of an optional string (\<open>if (email)\<close>, \<open>!!email\<close>): \<open>undefined\<close>,
  \<open>null\<close> and the empty string are falsy.
\<close>

definition truthy :: "string option \<Rightarrow> bool" where
  "truthy x = (case x of None \<Rightarrow> False | Some s \<Rightarrow> s \<noteq> [])"

text \<open>
  \<open>contact.email === email\<close> compares a stored value (a string or \<open>null\<close>) with a
  request value (a string or \<open>undefined\<close>). \<open>null === undefined\<close> is false, so the
  comparison holds only between two equal strings.
\<close>

definition strict_eq :: "string option \<Rightarrow> string option \<Rightarrow> bool" where
  "strict_eq stored given =
     (case stored of None \<Rightarrow> False
      | Some a \<Rightarrow> (case given of None \<Rightarrow> False | Some b \<Rightarrow> a = b))"

text \<open>
  A string is a list of characters, a character is a code point below 256 (U+0000 to
  U+00FF, the Latin-1 range). On these code points the functions of JavaScript are:
  \<open>trim\<close> removes, at both ends, tab, line feed, vertical tab, form feed, carriage
  return, space and the no-break space U+00A0; \<open>toLowerCase\<close> adds 32 to the capital
  letters A to Z (U+0041 to U+005A) and U+00C0 to U+00DE without the multiplication sign
  U+00D7, and leaves every other character; the class \<open>\D\<close> is every character but the
  digits 0 to 9. Code points from U+0100 on are not part of the model.
\<close>

definition is_space :: "char \<Rightarrow> bool" where
  "is_space c = (let n = (of_char c :: nat) in (9 \<le> n \<and> n \<le> 13) \<or> n = 32 \<or> n = 160)"

definition is_digit :: "char \<Rightarrow> bool" where
  "is_digit c = (let n = (of_char c :: nat) in 48 \<le> n \<and> n \<le> 57)"

definition is_capital :: "char \<Rightarrow> bool" where
  "is_capital c =
     (let n = (of_char c :: nat)
      in (65 \<le> n \<and> n \<le> 90) \<or> (192 \<le> n \<and> n \<le> 214) \<or> (216 \<le> n \<and> n \<le> 222))"

definition lower_char :: "char \<Rightarrow> char" where
  "lower_char c = (if is_capital c then char_of ((of_char c :: nat) + 32) else c)"

definition trim :: "string \<Rightarrow> string" where
  "trim s = rev (dropWhile is_space (rev (dropWhile is_space s)))"

definition toLowerCase :: "string \<Rightarrow> string" where
  "toLowerCase s = map lower_char s"

section \<open>The store's operations\<close>

text \<open>\<open>prisma.contact.create\<close>: the row gets the next id and the time of the call.\<close>

definition create :: "nat \<Rightarrow> string option \<Rightarrow> string option \<Rightarrow> nat option \<Rightarrow> LinkPrecedence
    \<Rightarrow> Store \<Rightarrow> Contact \<times> Store" where
  "create now em ph linked prec s =
     (let c = \<lparr>id_c = nextId s, phoneNumber = ph, email = em, linkedId = linked,
                linkPrecedence = prec, createdAt = now, deletedAt = None\<rparr>
      in (c, s\<lparr>rows := rows s @ [c], nextId := Suc (nextId s)\<rparr>))"

text \<open>
  \<open>prisma.contact.update({where: {id}, data: {linkPrecedence: SECONDARY, linkedId}})\<close>.
  The service calls it only with the id of a row it has read in the same request. The
  database (PostgreSQL) writes the new version of an updated row behind the rows the
  table holds, so a later scan meets the updated row after the rows that were not
  updated: the row leaves its place and goes to the end of the list.
\<close>

definition update_secondary :: "nat \<Rightarrow> nat \<Rightarrow> Store \<Rightarrow> Store" where
  "update_secondary i target s =
     s\<lparr>rows := filter (\<lambda>c. id_c c \<noteq> i) (rows s) @
                map (\<lambda>c. c\<lparr>linkPrecedence := SECONDARY, linkedId := Some target\<rparr>)
                  (filter (\<lambda>c. id_c c = i) (rows s))\<rparr>"

text \<open>
  \<open>prisma.contact.updateMany({where: {linkedId: old, deletedAt: null}, data: {linkedId}})\<close>.
  The updated rows go to the end of the list, in the order in which the scan met them.
\<close>

definition updateMany_linkedId :: "nat \<Rightarrow> nat \<Rightarrow> Store \<Rightarrow> Store" where
  "updateMany_linkedId old target s =
     s\<lparr>rows := filter (\<lambda>c. \<not> (linkedId c = Some old \<and> deletedAt c = None)) (rows s) @
                map (\<lambda>c. c\<lparr>linkedId := Some target\<rparr>)
                  (filter (\<lambda>c. linkedId c = Some old \<and> deletedAt c = None) (rows s))\<rparr>"

text \<open>
  \<open>findFirst({where: {id: {in: ids}, linkPrecedence: PRIMARY, deletedAt: null},
  orderBy: {createdAt: 'asc'}})\<close>.
\<close>

definition findFirst_primary :: "nat list \<Rightarrow> Store \<Rightarrow> Contact option" where
  "findFirst_primary ids s =
     (case sort_key createdAt
             (filter (\<lambda>c. id_c c \<in> set ids \<and> linkPrecedence c = PRIMARY \<and> deletedAt c = None)
                (rows s)) of
        [] \<Rightarrow> None
      | c # _ \<Rightarrow> Some c)"

text \<open>
  The \<open>findMany\<close> of \<open>getAllContactsInChain\<close>: the live rows with the given id or
  linked to it, by \<open>createdAt\<close>.
\<close>

definition chain_rows :: "nat \<Rightarrow> Store \<Rightarrow> Contact list" where
  "chain_rows p s =
     sort_key createdAt
       (filter (\<lambda>c. (id_c c = p \<or> linkedId c = Some p) \<and> deletedAt c = None) (rows s))"

section \<open>The identity service\<close>

definition sanitizeInput :: "IdentifyRequest \<Rightarrow> IdentifyRequest" where
  "sanitizeInput data =
     \<lparr>email_r = map_option (\<lambda>e. toLowerCase (trim e)) (email_r data),
      phoneNumber_r = (if truthy (phoneNumber_r data)
                       then map_option (filter is_digit) (phoneNumber_r data)
                       else None)\<rparr>"

text \<open>
  \<open>findMatchingContacts\<close>: one condition per truthy field, none gives the empty list
  without a query, otherwise the live rows that meet one of them, by \<open>createdAt\<close>.
\<close>

definition matches :: "string option \<Rightarrow> string option \<Rightarrow> Contact \<Rightarrow> bool" where
  "matches em ph c =
     ((truthy em \<and> email c = em \<and> deletedAt c = None) \<or>
      (truthy ph \<and> phoneNumber c = ph \<and> deletedAt c = None))"

definition findMatchingContacts :: "string option \<Rightarrow> string option \<Rightarrow> Store \<Rightarrow> Contact list" where
  "findMatchingContacts em ph s =
     (if \<not> truthy em \<and> \<not> truthy ph then []
      else sort_key createdAt (filter (matches em ph) (rows s)))"

definition shouldCreateNewContact :: "Contact list \<Rightarrow> string option \<Rightarrow> string option \<Rightarrow> bool" where
  "shouldCreateNewContact existingContacts em ph =
     (if list_ex (\<lambda>c. strict_eq (email c) em \<and> strict_eq (phoneNumber c) ph) existingContacts
      then False
      else if truthy em \<and> truthy ph then True
      else if truthy em then \<not> list_ex (\<lambda>c. strict_eq (email c) em) existingContacts
      else if truthy ph then \<not> list_ex (\<lambda>c. strict_eq (phoneNumber c) ph) existingContacts
      else False)"

text \<open>
  The callback of \<open>reduce\<close> in \<open>findPrimaryContact\<close>: it keeps the accumulator only
  when it is strictly older.
\<close>

definition older :: "Contact \<Rightarrow> Contact \<Rightarrow> Contact" where
  "older oldest current = (if createdAt oldest < createdAt current then oldest else current)"

definition linkedIds_of :: "Contact list \<Rightarrow> nat list" where
  "linkedIds_of contacts = List.map_filter linkedId contacts"

definition findPrimaryContact :: "Contact list \<Rightarrow> Store \<Rightarrow> error + Contact" where
  "findPrimaryContact contacts s =
     (case filter (\<lambda>c. linkPrecedence c = PRIMARY) contacts of
        p # ps \<Rightarrow> Inr (foldl older p ps)
      | [] \<Rightarrow>
          (if linkedIds_of contacts = [] then Inl SecondaryWithoutLinkedId
           else case findFirst_primary (linkedIds_of contacts) s of
                  None \<Rightarrow> Inl NoPrimaryContactFound
                | Some p \<Rightarrow> Inr p))"

text \<open>
  \<open>mergePrimaryContacts\<close>: the sort of JavaScript is stable, as \<open>sort_key\<close> is, and its
  comparison looks at \<open>createdAt\<close> only. The loop runs over the sorted list without its
  head.
\<close>

definition demote :: "nat \<Rightarrow> Store \<Rightarrow> Contact \<Rightarrow> Store" where
  "demote target s contact =
     updateMany_linkedId (id_c contact) target (update_secondary (id_c contact) target s)"

definition mergePrimaryContacts :: "Contact list \<Rightarrow> Store \<Rightarrow> Store" where
  "mergePrimaryContacts primaryContacts s =
     (case sort_key createdAt primaryContacts of
        [] \<Rightarrow> s
      | oldestPrimary # newerPrimaries \<Rightarrow> foldl (demote (id_c oldestPrimary)) s newerPrimaries)"

definition getAllContactsInChain :: "Contact list \<Rightarrow> Store \<Rightarrow> error + Contact list" where
  "getAllContactsInChain initialContacts s =
     (case findPrimaryContact initialContacts s of
        Inl e \<Rightarrow> Inl e
      | Inr p \<Rightarrow> Inr (chain_rows (id_c p) s))"

text \<open>
  \<open>formatResponse\<close>: a \<open>Set\<close> keeps the order of first insertion, so adding a value is
  appending it when it is new. The loop adds the truthy fields of every contact and
  collects the ids of the secondary ones; the ids are sorted numerically at the end.
\<close>

definition set_add :: "string list \<Rightarrow> string option \<Rightarrow> string list" where
  "set_add acc v =
     (case v of None \<Rightarrow> acc
      | Some x \<Rightarrow> if x = [] \<or> x \<in> set acc then acc else acc @ [x])"

definition collect :: "string list \<times> string list \<times> nat list \<Rightarrow> Contact
    \<Rightarrow> string list \<times> string list \<times> nat list" where
  "collect acc contact =
     (case acc of (es, ps, ids) \<Rightarrow>
        (set_add es (email contact), set_add ps (phoneNumber contact),
         if linkPrecedence contact = SECONDARY then ids @ [id_c contact] else ids))"

definition formatResponse :: "Contact list \<Rightarrow> error + IdentifyResponse" where
  "formatResponse contacts =
     (case find (\<lambda>c. linkPrecedence c = PRIMARY) contacts of
        None \<Rightarrow> Inl NoPrimaryInChain
      | Some primaryContact \<Rightarrow>
          (case foldl collect ([], [], []) contacts of (es, ps, ids) \<Rightarrow>
             Inr \<lparr>primaryContactId = id_c primaryContact, emails = es, phoneNumbers = ps,
                  secondaryContactIds = sort ids\<rparr>))"

text \<open>
  The service runs without a transaction, so a write stays when a later step of the same
  request throws: every operation returns its result together with the store.
\<close>

definition handleNewContact :: "nat \<Rightarrow> IdentifyRequest \<Rightarrow> Store \<Rightarrow> (error + IdentifyResponse) \<times> Store" where
  "handleNewContact now data s =
     (case create now (email_r data) (phoneNumber_r data) None PRIMARY s of
        (newContact, s') \<Rightarrow> (formatResponse [newContact], s'))"

definition processExistingContacts :: "nat \<Rightarrow> Contact list \<Rightarrow> IdentifyRequest \<Rightarrow> Store
    \<Rightarrow> (error + IdentifyResponse) \<times> Store" where
  "processExistingContacts now matchingContacts data s =
     (case (if shouldCreateNewContact matchingContacts (email_r data) (phoneNumber_r data)
            then (case findPrimaryContact matchingContacts s of
                    Inl e \<Rightarrow> Inl e
                  | Inr primaryContact \<Rightarrow>
                      Inr (snd (create now (email_r data) (phoneNumber_r data)
                                  (Some (id_c primaryContact)) SECONDARY s)))
            else Inr s) of
        Inl e \<Rightarrow> (Inl e, s)
      | Inr s1 \<Rightarrow>
          (let primaryContacts = filter (\<lambda>c. linkPrecedence c = PRIMARY) matchingContacts;
               s2 = (if length primaryContacts > 1
                     then mergePrimaryContacts primaryContacts s1 else s1)
           in case getAllContactsInChain matchingContacts s2 of
                Inl e \<Rightarrow> (Inl e, s2)
              | Inr allContacts \<Rightarrow> (formatResponse allContacts, s2)))"

definition identify :: "nat \<Rightarrow> IdentifyRequest \<Rightarrow> Store \<Rightarrow> (error + IdentifyResponse) \<times> Store" where
  "identify now data s =
     (let sanitizedData = sanitizeInput data;
          matchingContacts = findMatchingContacts (email_r sanitizedData)
                               (phoneNumber_r sanitizedData) s
      in if length matchingContacts = 0 then handleNewContact now sanitizedData s
         else processExistingContacts now matchingContacts sanitizedData s)"

section \<open>The steps of a request on existing contacts\<close>

text \<open>
  The three blocks of \<open>processExistingContacts\<close>, named so that each can be reasoned
  about on its own: linking a new secondary contact, merging, and answering.
  \<open>matching_of\<close> is the matching set \<open>identify\<close> computes for a raw request.
\<close>

definition link_step :: "nat \<Rightarrow> Contact list \<Rightarrow> IdentifyRequest \<Rightarrow> Store \<Rightarrow> error + Store" where
  "link_step now matchingContacts data s =
     (if shouldCreateNewContact matchingContacts (email_r data) (phoneNumber_r data)
      then (case findPrimaryContact matchingContacts s of
              Inl e \<Rightarrow> Inl e
            | Inr primaryContact \<Rightarrow>
                Inr (snd (create now (email_r data) (phoneNumber_r data)
                            (Some (id_c primaryContact)) SECONDARY s)))
      else Inr s)"

definition merge_step :: "Contact list \<Rightarrow> Store \<Rightarrow> Store" where
  "merge_step matchingContacts s =
     (if length (filter (\<lambda>c. linkPrecedence c = PRIMARY) matchingContacts) > 1
      then mergePrimaryContacts (filter (\<lambda>c. linkPrecedence c = PRIMARY) matchingContacts) s
      else s)"

definition respond :: "Contact list \<Rightarrow> Store \<Rightarrow> (error + IdentifyResponse) \<times> Store" where
  "respond matchingContacts s =
     (case getAllContactsInChain matchingContacts s of
        Inl e \<Rightarrow> (Inl e, s)
      | Inr allContacts \<Rightarrow> (formatResponse allContacts, s))"

definition matching_of :: "IdentifyRequest \<Rightarrow> Store \<Rightarrow> Contact list" where
  "matching_of data s =
     findMatchingContacts (email_r (sanitizeInput data)) (phoneNumber_r (sanitizeInput data)) s"

text \<open>The contact a request without a match creates.\<close>

definition new_primary :: "nat \<Rightarrow> IdentifyRequest \<Rightarrow> Store \<Rightarrow> Contact" where
  "new_primary now data s =
     \<lparr>id_c = nextId s, phoneNumber = phoneNumber_r data, email = email_r data, linkedId = None,
      linkPrecedence = PRIMARY, createdAt = now, deletedAt = None\<rparr>"

text \<open>
  The row a request adds when it links new information to a primary contact, and the
  store with one more row.
\<close>

definition new_secondary :: "nat \<Rightarrow> IdentifyRequest \<Rightarrow> nat \<Rightarrow> Store \<Rightarrow> Contact" where
  "new_secondary now data target s =
     \<lparr>id_c = nextId s, phoneNumber = phoneNumber_r data, email = email_r data,
      linkedId = Some target, linkPrecedence = SECONDARY, createdAt = now, deletedAt = None\<rparr>"

definition add_row :: "Contact \<Rightarrow> Store \<Rightarrow> Store" where
  "add_row c s = s\<lparr>rows := rows s @ [c], nextId := Suc (nextId s)\<rparr>"

section \<open>The effect of a merge on a row\<close>

text \<open>
  What a merge does to one row, wherever the row then is in the table: with \<open>ids\<close> the
  ids of the demoted primary contacts and \<open>target\<close> the id of the one that stays, a row
  with one of the ids becomes a secondary contact of \<open>target\<close>, a live row linked to one
  of them is linked to \<open>target\<close>, every other row stays. \<open>absorbed_ids\<close> and
  \<open>survivor_id\<close> read both from a matching set.
\<close>

definition links_into :: "nat list \<Rightarrow> Contact \<Rightarrow> bool" where
  "links_into ids c = (case linkedId c of None \<Rightarrow> False | Some l \<Rightarrow> l \<in> set ids)"

definition absorb :: "nat list \<Rightarrow> nat \<Rightarrow> Contact \<Rightarrow> Contact" where
  "absorb ids target c =
     (if id_c c \<in> set ids then c\<lparr>linkPrecedence := SECONDARY, linkedId := Some target\<rparr>
      else if deletedAt c = None \<and> links_into ids c then c\<lparr>linkedId := Some target\<rparr>
      else c)"

definition primaries :: "Contact list \<Rightarrow> Contact list" where
  "primaries m = filter (\<lambda>c. linkPrecedence c = PRIMARY) m"

definition absorbed_ids :: "Contact list \<Rightarrow> nat list" where
  "absorbed_ids m = map id_c (tl (primaries m))"

definition survivor_id :: "Contact list \<Rightarrow> nat" where
  "survivor_id m = (case primaries m of [] \<Rightarrow> 0 | p # _ \<Rightarrow> id_c p)"

section \<open>The specification's notions\<close>

text \<open>
  A well-formed store: the ids are distinct, every id has been handed out by the
  sequence, and every link names an id the sequence has handed out. Nothing is said of
  the order of the rows.
\<close>

definition link_below :: "nat \<Rightarrow> Contact \<Rightarrow> bool" where
  "link_below n c = (case linkedId c of None \<Rightarrow> True | Some l \<Rightarrow> l < n)"

definition wf_store :: "Store \<Rightarrow> bool" where
  "wf_store s =
     (distinct (map id_c (rows s)) \<and>
      list_all (\<lambda>c. id_c c < nextId s) (rows s) \<and>
      list_all (link_below (nextId s)) (rows s))"

text \<open>
  The chain invariant together with the rule of the data model that a primary contact
  has no link, row by row: a live primary contact has no link, and a live secondary
  contact is linked to the id of a live primary contact. A soft-deleted row is a member
  of no chain.
\<close>

definition chain_ok :: "Contact list \<Rightarrow> Contact \<Rightarrow> bool" where
  "chain_ok R c =
     (deletedAt c \<noteq> None \<or>
      (case linkPrecedence c of
         PRIMARY \<Rightarrow> linkedId c = None
       | SECONDARY \<Rightarrow>
           list_ex (\<lambda>p. linkedId c = Some (id_c p) \<and> linkPrecedence p = PRIMARY \<and>
                         deletedAt p = None) R))"

definition chain_inv :: "Store \<Rightarrow> bool" where
  "chain_inv s = list_all (chain_ok (rows s)) (rows s)"

text \<open>
  The chain invariant in the words of the specification, chain by chain. The chain of a
  live primary contact is what \<open>chain_rows\<close> reads under its id: the live rows with that
  id or linked to it. Every live contact is a primary contact or is linked to a live
  primary contact, and in the chain of a live primary contact that contact is the only
  primary one, every other member being a secondary contact whose link is its id.
\<close>

definition is_live_primary :: "Contact \<Rightarrow> bool" where
  "is_live_primary c = (linkPrecedence c = PRIMARY \<and> deletedAt c = None)"

definition one_primary_per_chain :: "Store \<Rightarrow> bool" where
  "one_primary_per_chain s =
     (list_all (\<lambda>c. deletedAt c \<noteq> None \<or> is_live_primary c \<or>
                     list_ex (\<lambda>p. is_live_primary p \<and> linkedId c = Some (id_c p)) (rows s))
        (rows s) \<and>
      list_all (\<lambda>p. \<not> is_live_primary p \<or>
                     (filter (\<lambda>c. linkPrecedence c = PRIMARY) (chain_rows (id_c p) s) = [p] \<and>
                      list_all (\<lambda>c. c = p \<or>
                                     (linkPrecedence c = SECONDARY \<and> linkedId c = Some (id_c p)))
                        (chain_rows (id_c p) s)))
        (rows s))"

text \<open>
  The same, row by row: a live secondary contact is linked to the id of a live primary
  contact, and a live primary contact is not linked to the id of another live primary
  contact.
\<close>

definition in_one_chain :: "Contact list \<Rightarrow> Contact \<Rightarrow> bool" where
  "in_one_chain R c =
     (deletedAt c \<noteq> None \<or>
      (case linkPrecedence c of
         PRIMARY \<Rightarrow>
           \<not> list_ex (\<lambda>p. is_live_primary p \<and> linkedId c = Some (id_c p) \<and> id_c p \<noteq> id_c c) R
       | SECONDARY \<Rightarrow> list_ex (\<lambda>p. is_live_primary p \<and> linkedId c = Some (id_c p)) R))"

text \<open>The row of a store with a given id.\<close>

definition contact_by_id :: "nat \<Rightarrow> Store \<Rightarrow> Contact option" where
  "contact_by_id i s = find (\<lambda>c. id_c c = i) (rows s)"

text \<open>
  The policy of the new-record decision, in the words of the specification. The fields of
  a matched contact are compared with the request's fields as they are given, an absent
  field being equal to an absent field. A field is supplied when the request carries a
  value for it: it is present and not the empty string.
\<close>

definition supplied :: "string option \<Rightarrow> bool" where
  "supplied x = (x \<noteq> None \<and> x \<noteq> Some [])"

definition new_record_policy :: "Contact list \<Rightarrow> string option \<Rightarrow> string option \<Rightarrow> bool" where
  "new_record_policy matching em ph =
     (if list_ex (\<lambda>c. email c = em \<and> phoneNumber c = ph) matching then False
      else if supplied em \<and> supplied ph then True
      else if supplied em \<and> \<not> supplied ph then \<not> list_ex (\<lambda>c. email c = em) matching
      else if supplied ph \<and> \<not> supplied em then \<not> list_ex (\<lambda>c. phoneNumber c = ph) matching
      else False)"

text \<open>
  The unique non-empty values of a list of optional strings, each at its first
  occurrence: empties are skipped, then the values already seen.
\<close>

primrec skip_dups :: "string list \<Rightarrow> string list \<Rightarrow> string list" where
  "skip_dups seen [] = []"
| "skip_dups seen (x # xs) =
     (if x \<in> set seen then skip_dups seen xs else x # skip_dups (x # seen) xs)"

definition non_empty_values :: "string option list \<Rightarrow> string list" where
  "non_empty_values vs = filter (\<lambda>x. x \<noteq> []) (List.map_filter (\<lambda>v. v) vs)"

definition unique_values :: "string option list \<Rightarrow> string list" where
  "unique_values vs = skip_dups [] (non_empty_values vs)"

text \<open>
  The two situations the specification names as data-integrity failures. In the first the
  matching set is not empty, holds secondary contacts only, and no live primary contact
  has one of the ids they link to. The second looks at the chain read for the response:
  the created contact alone for a request without a match, otherwise what
  \<open>getAllContactsInChain\<close> reads from the store the request leaves.
\<close>

definition orphaned_secondaries :: "Contact list \<Rightarrow> Store \<Rightarrow> bool" where
  "orphaned_secondaries m s =
     (m \<noteq> [] \<and> list_all (\<lambda>c. linkPrecedence c = SECONDARY) m \<and>
      \<not> list_ex (\<lambda>c. id_c c \<in> set (linkedIds_of m) \<and> linkPrecedence c = PRIMARY \<and> deletedAt c = None)
           (rows s))"

definition response_chain :: "nat \<Rightarrow> IdentifyRequest \<Rightarrow> Store \<Rightarrow> error + Contact list" where
  "response_chain now data s =
     (if matching_of data s = []
      then Inr [fst (create now (email_r (sanitizeInput data)) (phoneNumber_r (sanitizeInput data))
                       None PRIMARY s)]
      else getAllContactsInChain (matching_of data s) (snd (identify now data s)))"









section \<open>Example stores and requests\<close>

text \<open>The store before the first request.\<close>

definition empty_store :: Store where
  "empty_store = \<lparr>rows = [], nextId = 1\<rparr>"

text \<open>
  Two independent primary contacts and a request that bridges them, written with capital
  letters, a trailing space and a dash that sanitizing removes.
\<close>

definition george :: Contact where
  "george = \<lparr>id_c = 1, phoneNumber = Some ''919191'', email = Some ''george@hillvalley.edu'',
             linkedId = None, linkPrecedence = PRIMARY, createdAt = 100, deletedAt = None\<rparr>"

definition biff :: Contact where
  "biff = \<lparr>id_c = 2, phoneNumber = Some ''717171'', email = Some ''biffsucks@hillvalley.edu'',
           linkedId = None, linkPrecedence = PRIMARY, createdAt = 200, deletedAt = None\<rparr>"

definition two_chains :: Store where
  "two_chains = \<lparr>rows = [george, biff], nextId = 3\<rparr>"

definition bridge :: IdentifyRequest where
  "bridge = \<lparr>email_r = Some ''George@HillValley.edu '', phoneNumber_r = Some ''717-171''\<rparr>"

text \<open>The store the bridging request leaves at time 300.\<close>

definition biff_absorbed :: Contact where
  "biff_absorbed = biff\<lparr>linkPrecedence := SECONDARY, linkedId := Some 1\<rparr>"

definition bridge_row :: Contact where
  "bridge_row = \<lparr>id_c = 3, phoneNumber = Some ''717171'', email = Some ''george@hillvalley.edu'',
                 linkedId = Some 1, linkPrecedence = SECONDARY, createdAt = 300, deletedAt = None\<rparr>"

definition one_chain :: Store where
  "one_chain = \<lparr>rows = [george, bridge_row, biff_absorbed], nextId = 4\<rparr>"

text \<open>
  A store with a soft-deleted secondary contact of the second chain, next to a live one.
\<close>

definition marty :: Contact where
  "marty = \<lparr>id_c = 3, phoneNumber = Some ''717171'', email = Some ''marty@hillvalley.edu'',
            linkedId = Some 2, linkPrecedence = SECONDARY, createdAt = 210, deletedAt = None\<rparr>"

definition lorraine :: Contact where
  "lorraine = \<lparr>id_c = 4, phoneNumber = Some ''717171'', email = Some ''lorraine@hillvalley.edu'',
               linkedId = Some 2, linkPrecedence = SECONDARY, createdAt = 220,
               deletedAt = Some 230\<rparr>"

definition four_rows :: Store where
  "four_rows = \<lparr>rows = [george, biff, marty, lorraine], nextId = 5\<rparr>"

text \<open>Two primary contacts created in the same millisecond, and a request that bridges them.\<close>

definition twin_a :: Contact where
  "twin_a = \<lparr>id_c = 1, phoneNumber = Some ''111'', email = Some ''a@x.io'',
             linkedId = None, linkPrecedence = PRIMARY, createdAt = 50, deletedAt = None\<rparr>"

definition twin_b :: Contact where
  "twin_b = \<lparr>id_c = 2, phoneNumber = Some ''222'', email = Some ''b@x.io'',
             linkedId = None, linkPrecedence = PRIMARY, createdAt = 50, deletedAt = None\<rparr>"

definition twins :: Store where
  "twins = \<lparr>rows = [twin_a, twin_b], nextId = 3\<rparr>"

definition twin_bridge :: IdentifyRequest where
  "twin_bridge = \<lparr>email_r = Some ''a@x.io'', phoneNumber_r = Some ''222''\<rparr>"

text \<open>The same two contacts in a table that is scanned in the other order.\<close>

definition twins_rev :: Store where
  "twins_rev = \<lparr>rows = [twin_b, twin_a], nextId = 3\<rparr>"

text \<open>A secondary contact whose link names no contact, and a request for its phone number.\<close>

definition strickland :: Contact where
  "strickland = \<lparr>id_c = 7, phoneNumber = Some ''333'', email = Some ''s@x.io'',
                 linkedId = Some 5, linkPrecedence = SECONDARY, createdAt = 40, deletedAt = None\<rparr>"

definition orphaned :: Store where
  "orphaned = \<lparr>rows = [strickland], nextId = 8\<rparr>"

definition phone_only :: IdentifyRequest where
  "phone_only = \<lparr>email_r = None, phoneNumber_r = Some ''333''\<rparr>"

text \<open>A request with that phone number and an email no contact has, and one without fields.\<close>

definition new_email :: IdentifyRequest where
  "new_email = \<lparr>email_r = Some ''new@x.io'', phoneNumber_r = Some ''333''\<rparr>"

definition no_fields :: IdentifyRequest where
  "no_fields = \<lparr>email_r = None, phoneNumber_r = None\<rparr>"

text \<open>
  A chain whose secondary contact carries an earlier creation time than its primary
  contact, and a request for the phone number both have.
\<close>

definition doc :: Contact where
  "doc = \<lparr>id_c = 1, phoneNumber = Some ''121212'', email = Some ''doc@hillvalley.edu'',
          linkedId = None, linkPrecedence = PRIMARY, createdAt = 100, deletedAt = None\<rparr>"

definition clara :: Contact where
  "clara = \<lparr>id_c = 2, phoneNumber = Some ''121212'', email = Some ''clara@hillvalley.edu'',
            linkedId = Some 1, linkPrecedence = SECONDARY, createdAt = 50, deletedAt = None\<rparr>"

definition late_primary :: Store where
  "late_primary = \<lparr>rows = [doc, clara], nextId = 3\<rparr>"

definition doc_phone :: IdentifyRequest where
  "doc_phone = \<lparr>email_r = None, phoneNumber_r = Some ''121212''\<rparr>"






section \<open>Basic facts\<close>

lemma truthy_simps [simp]:
  "truthy None = False" "truthy (Some x) = (x \<noteq> [])"
  by (simp_all add: truthy_def)

lemma strict_eq_simps [simp]:
  "strict_eq None g = False" "strict_eq st None = False" "strict_eq (Some a) (Some b) = (a = b)"
  by (simp_all add: strict_eq_def split: option.splits)

lemma processExistingContacts_steps:
  "processExistingContacts now m data s =
     (case link_step now m data s of
        Inl e \<Rightarrow> (Inl e, s)
      | Inr s1 \<Rightarrow> respond m (merge_step m s1))"
  by (simp add: processExistingContacts_def link_step_def merge_step_def respond_def Let_def
           split: sum.splits)

lemma identify_steps:
  "identify now data s =
     (if matching_of data s = [] then handleNewContact now (sanitizeInput data) s
      else processExistingContacts now (matching_of data s) (sanitizeInput data) s)"
  by (simp add: identify_def matching_of_def Let_def)

subsection \<open>Response formatting\<close>

lemma skip_dups_cong: "set seen = set seen' \<Longrightarrow> skip_dups seen xs = skip_dups seen' xs"
proof (induction xs arbitrary: seen seen')
  case Nil
  then show ?case by simp
next
  case (Cons x xs)
  have "skip_dups (x # seen) xs = skip_dups (x # seen') xs"
    using Cons.prems by (intro Cons.IH) simp
  moreover have "skip_dups seen xs = skip_dups seen' xs"
    using Cons.prems by (rule Cons.IH)
  ultimately show ?case using Cons.prems by simp
qed

lemma non_empty_values_simps [simp]:
  "non_empty_values [] = []"
  "non_empty_values (None # vs) = non_empty_values vs"
  "non_empty_values (Some x # vs) = (if x = [] then non_empty_values vs else x # non_empty_values vs)"
  by (simp_all add: non_empty_values_def)

lemma foldl_set_add:
  "foldl set_add acc vs = acc @ skip_dups acc (non_empty_values vs)"
proof (induction vs arbitrary: acc)
  case Nil
  then show ?case by simp
next
  case (Cons v vs)
  show ?case
  proof (cases v)
    case None
    then show ?thesis using Cons.IH[of acc] by (simp add: set_add_def)
  next
    case (Some x)
    have "skip_dups (acc @ [x]) (non_empty_values vs) = skip_dups (x # acc) (non_empty_values vs)"
      by (rule skip_dups_cong) simp
    then show ?thesis using Some Cons.IH[of acc] Cons.IH[of "acc @ [x]"]
      by (simp add: set_add_def)
  qed
qed

lemma foldl_collect:
  "foldl collect (es, ps, ids) cs =
     (foldl set_add es (map email cs), foldl set_add ps (map phoneNumber cs),
      ids @ map id_c (filter (\<lambda>c. linkPrecedence c = SECONDARY) cs))"
  by (induction cs arbitrary: es ps ids) (simp_all add: collect_def)

lemma formatResponse_eq:
  "formatResponse contacts =
     (case find (\<lambda>c. linkPrecedence c = PRIMARY) contacts of
        None \<Rightarrow> Inl NoPrimaryInChain
      | Some p \<Rightarrow> Inr \<lparr>primaryContactId = id_c p,
                       emails = unique_values (map email contacts),
                       phoneNumbers = unique_values (map phoneNumber contacts),
                       secondaryContactIds =
                         sort (map id_c (filter (\<lambda>c. linkPrecedence c = SECONDARY) contacts))\<rparr>)"
  by (simp add: formatResponse_def foldl_collect foldl_set_add unique_values_def split: option.splits)

lemma find_filter_Cons: "filter P xs = p # ps \<Longrightarrow> find P xs = Some p"
  by (induction xs) (auto split: if_splits)

lemma sorted_chain_rows: "sorted (map createdAt (chain_rows p s))"
  by (simp add: chain_rows_def)

lemma getAllContactsInChain_sorted:
  "getAllContactsInChain m s = Inr cs \<Longrightarrow> sorted (map createdAt cs)"
  by (auto simp: getAllContactsInChain_def sorted_chain_rows split: sum.splits)

lemma handleNewContact_eq:
  "handleNewContact now data s =
     (Inr \<lparr>primaryContactId = nextId s, emails = unique_values [email_r data],
           phoneNumbers = unique_values [phoneNumber_r data], secondaryContactIds = []\<rparr>,
      s\<lparr>rows := rows s @ [new_primary now data s], nextId := Suc (nextId s)\<rparr>)"
  by (simp add: handleNewContact_def create_def new_primary_def formatResponse_eq Let_def)

subsection \<open>Finding the primary contact, answering\<close>

lemma findFirst_primary_None:
  "findFirst_primary ids s = None \<longleftrightarrow>
     \<not> list_ex (\<lambda>c. id_c c \<in> set ids \<and> linkPrecedence c = PRIMARY \<and> deletedAt c = None) (rows s)"
proof -
  let ?P = "\<lambda>c. id_c c \<in> set ids \<and> linkPrecedence c = PRIMARY \<and> deletedAt c = None"
  have "findFirst_primary ids s = None \<longleftrightarrow> sort_key createdAt (filter ?P (rows s)) = []"
    by (simp add: findFirst_primary_def split: list.splits)
  also have "\<dots> \<longleftrightarrow> set (sort_key createdAt (filter ?P (rows s))) = {}"
    by (simp only: set_empty)
  also have "\<dots> \<longleftrightarrow> \<not> list_ex ?P (rows s)"
    by (auto simp: list_ex_iff)
  finally show ?thesis .
qed

lemma findFirst_primary_Some:
  assumes "findFirst_primary ids s = Some p"
  shows "p \<in> set (rows s) \<and> id_c p \<in> set ids \<and> linkPrecedence p = PRIMARY \<and> deletedAt p = None"
proof -
  let ?P = "\<lambda>c. id_c c \<in> set ids \<and> linkPrecedence c = PRIMARY \<and> deletedAt c = None"
  obtain cs where "sort_key createdAt (filter ?P (rows s)) = p # cs"
    using assms by (auto simp: findFirst_primary_def split: list.splits)
  then have "p \<in> set (sort_key createdAt (filter ?P (rows s)))" by simp
  then show ?thesis by simp
qed

lemma findFirst_primary_create_secondary:
  "findFirst_primary ids (snd (create now em ph l SECONDARY s)) = findFirst_primary ids s"
  by (simp add: findFirst_primary_def create_def Let_def)

lemma filter_primary_Nil_iff:
  "filter (\<lambda>c. linkPrecedence c = PRIMARY) m = [] \<longleftrightarrow> list_all (\<lambda>c. linkPrecedence c = SECONDARY) m"
  by (induction m) (auto intro: LinkPrecedence.exhaust)

lemma findPrimaryContact_primaries:
  "filter (\<lambda>c. linkPrecedence c = PRIMARY) m = p # ps \<Longrightarrow> findPrimaryContact m s = Inr (foldl older p ps)"
  by (simp add: findPrimaryContact_def)

lemma findPrimaryContact_secondaries:
  "filter (\<lambda>c. linkPrecedence c = PRIMARY) m = [] \<Longrightarrow>
   findPrimaryContact m s =
     (if linkedIds_of m = [] then Inl SecondaryWithoutLinkedId
      else case findFirst_primary (linkedIds_of m) s of
             None \<Rightarrow> Inl NoPrimaryContactFound | Some p \<Rightarrow> Inr p)"
  by (simp add: findPrimaryContact_def)

lemma merge_step_no_primaries:
  "filter (\<lambda>c. linkPrecedence c = PRIMARY) m = [] \<Longrightarrow> merge_step m s = s"
  by (simp add: merge_step_def)

lemma snd_respond [simp]: "snd (respond m s) = s"
  by (simp add: respond_def split: sum.splits)

lemma formatResponse_error_iff:
  "(\<exists>e. formatResponse cs = Inl e) \<longleftrightarrow> \<not> list_ex (\<lambda>c. linkPrecedence c = PRIMARY) cs"
proof (cases "find (\<lambda>c. linkPrecedence c = PRIMARY) cs")
  case None
  then have "formatResponse cs = Inl NoPrimaryInChain" by (simp add: formatResponse_eq)
  moreover have "\<not> list_ex (\<lambda>c. linkPrecedence c = PRIMARY) cs"
    using None by (simp add: find_None_iff list_ex_iff)
  ultimately show ?thesis by simp
next
  case (Some p)
  then have "find (\<lambda>c. linkPrecedence c = PRIMARY) cs \<noteq> None" by simp
  then have "list_ex (\<lambda>c. linkPrecedence c = PRIMARY) cs"
    by (auto simp: find_None_iff list_ex_iff)
  then show ?thesis using Some by (simp add: formatResponse_eq)
qed

lemma fst_respond_error_iff:
  "(\<exists>e. fst (respond m s) = Inl e) \<longleftrightarrow>
     (case getAllContactsInChain m s of
        Inl e \<Rightarrow> True
      | Inr ch \<Rightarrow> \<not> list_ex (\<lambda>c. linkPrecedence c = PRIMARY) ch)"
  by (simp add: respond_def formatResponse_error_iff split: sum.splits)

lemma identify_error_iff_aux:
  assumes m: "matching_of data s \<noteq> []"
  shows "(\<exists>e. fst (identify now data s) = Inl e) \<longleftrightarrow>
         orphaned_secondaries (matching_of data s) s \<or>
         (\<exists>ch. getAllContactsInChain (matching_of data s) (snd (identify now data s)) = Inr ch \<and>
               \<not> list_ex (\<lambda>c. linkPrecedence c = PRIMARY) ch)"
proof -
  let ?m = "matching_of data s"
  let ?d = "sanitizeInput data"
  have id_eq: "identify now data s =
      (case link_step now ?m ?d s of Inl e \<Rightarrow> (Inl e, s)
       | Inr s1 \<Rightarrow> respond ?m (merge_step ?m s1))"
    using m by (simp add: identify_steps processExistingContacts_steps)
  show ?thesis
  proof (cases "filter (\<lambda>c. linkPrecedence c = PRIMARY) ?m")
    case (Cons p ps)
    then have fp: "\<And>s'. findPrimaryContact ?m s' = Inr (foldl older p ps)"
      by (rule findPrimaryContact_primaries)
    have no_orph: "\<not> orphaned_secondaries ?m s"
      using Cons filter_primary_Nil_iff[of ?m] by (simp add: orphaned_secondaries_def)
    obtain s1 where ls: "link_step now ?m ?d s = Inr s1"
      by (cases "shouldCreateNewContact ?m (email_r ?d) (phoneNumber_r ?d)")
         (simp_all add: link_step_def fp)
    have "identify now data s = respond ?m (merge_step ?m s1)"
      using id_eq ls by simp
    then show ?thesis
      using no_orph fst_respond_error_iff[of ?m "merge_step ?m s1"]
      by (auto simp: getAllContactsInChain_def fp)
  next
    case Nil
    note fp = findPrimaryContact_secondaries[OF Nil]
    have ms: "\<And>s'. merge_step ?m s' = s'" using Nil by (rule merge_step_no_primaries)
    have orph: "orphaned_secondaries ?m s \<longleftrightarrow> findFirst_primary (linkedIds_of ?m) s = None"
      using m Nil filter_primary_Nil_iff[of ?m]
      by (simp add: orphaned_secondaries_def findFirst_primary_None)
    show ?thesis
    proof (cases "findFirst_primary (linkedIds_of ?m) s")
      case None
      obtain e where e: "findPrimaryContact ?m s = Inl e"
        using None by (cases "linkedIds_of ?m = []") (simp_all add: fp)
      have "identify now data s = (Inl e, s)"
        using id_eq e ms
        by (simp add: link_step_def respond_def getAllContactsInChain_def)
      then show ?thesis using orph None by simp
    next
      case (Some p)
      then have ne: "linkedIds_of ?m \<noteq> []"
        by (auto simp: findFirst_primary_def)
      have p: "p \<in> set (rows s)" "linkPrecedence p = PRIMARY" "deletedAt p = None"
        using findFirst_primary_Some[OF Some] by simp_all
      have fps: "findPrimaryContact ?m s = Inr p" using Some ne by (simp add: fp)
      obtain s1 where ls: "link_step now ?m ?d s = Inr s1"
        and s1: "s1 = s \<or> s1 = snd (create now (email_r ?d) (phoneNumber_r ?d) (Some (id_c p)) SECONDARY s)"
        by (cases "shouldCreateNewContact ?m (email_r ?d) (phoneNumber_r ?d)")
           (simp_all add: link_step_def fps)
      have ff: "findFirst_primary (linkedIds_of ?m) s1 = Some p"
        using s1 Some by (auto simp: findFirst_primary_create_secondary)
      have fp1: "findPrimaryContact ?m s1 = Inr p"
        using ff ne by (simp add: findPrimaryContact_secondaries[OF Nil])
      have "p \<in> set (rows s1)" using s1 p(1) by (auto simp: create_def Let_def)
      then have pin: "p \<in> set (chain_rows (id_c p) s1)"
        using p(3) by (simp add: chain_rows_def)
      have idr: "identify now data s = respond ?m s1"
        using id_eq ls ms by simp
      have ga: "getAllContactsInChain ?m s1 = Inr (chain_rows (id_c p) s1)"
        by (simp add: getAllContactsInChain_def fp1)
      have ex: "list_ex (\<lambda>c. linkPrecedence c = PRIMARY) (chain_rows (id_c p) s1)"
        using pin p(2) by (auto simp: list_ex_iff)
      show ?thesis
        using orph Some idr ga ex fst_respond_error_iff[of ?m s1] by simp
    qed
  qed
qed

subsection \<open>Merging, linking and the invariants\<close>

lemma absorb_Nil [simp]: "absorb [] t c = c"
  by (simp add: absorb_def links_into_def split: option.splits)

lemma image_mset_absorb_Nil [simp]: "image_mset (absorb [] t) M = M"
  by (induction M) simp_all

lemma absorb_fields [simp]:
  "id_c (absorb ids t c) = id_c c"
  "email (absorb ids t c) = email c"
  "phoneNumber (absorb ids t c) = phoneNumber c"
  "createdAt (absorb ids t c) = createdAt c"
  "deletedAt (absorb ids t c) = deletedAt c"
  by (simp_all add: absorb_def)

lemma image_mset_If:
  "image_mset (\<lambda>x. if P x then f x else x) M =
     filter_mset (\<lambda>x. \<not> P x) M + image_mset f (filter_mset P M)"
  by (induction M) simp_all

lemma mset_update_secondary:
  "mset (rows (update_secondary i t s)) =
     image_mset (\<lambda>c. if id_c c = i then c\<lparr>linkPrecedence := SECONDARY, linkedId := Some t\<rparr> else c)
       (mset (rows s))"
  by (simp add: update_secondary_def image_mset_If)

lemma mset_updateMany_linkedId:
  "mset (rows (updateMany_linkedId old t s)) =
     image_mset (\<lambda>c. if linkedId c = Some old \<and> deletedAt c = None then c\<lparr>linkedId := Some t\<rparr> else c)
       (mset (rows s))"
  by (simp add: updateMany_linkedId_def image_mset_If)

lemma mset_demote:
  "mset (rows (demote t s c)) =
     image_mset
       (\<lambda>r. if id_c r = id_c c then r\<lparr>linkPrecedence := SECONDARY, linkedId := Some t\<rparr>
            else if linkedId r = Some (id_c c) \<and> deletedAt r = None then r\<lparr>linkedId := Some t\<rparr>
            else r) (mset (rows s))"
  unfolding demote_def mset_updateMany_linkedId mset_update_secondary multiset.map_comp
  by (rule image_mset_cong) auto

lemma demote_nextId [simp]: "nextId (demote t s c) = nextId s"
  by (simp add: demote_def updateMany_linkedId_def update_secondary_def)

lemma absorb_step:
  "absorb ids t (if id_c r = i then r\<lparr>linkPrecedence := SECONDARY, linkedId := Some t\<rparr>
                 else if linkedId r = Some i \<and> deletedAt r = None then r\<lparr>linkedId := Some t\<rparr>
                 else r)
   = absorb (i # ids) t r"
  by (cases "linkedId r") (auto simp: absorb_def links_into_def)

text \<open>
  The loop of a merge leaves the rows of the table, each changed as \<open>absorb\<close> says, in
  some order.
\<close>

lemma mset_foldl_demote:
  "mset (rows (foldl (demote t) s cs)) = image_mset (absorb (map id_c cs) t) (mset (rows s))"
proof (induction cs arbitrary: s)
  case Nil
  then show ?case by simp
next
  case (Cons c cs)
  show ?case
    by (simp add: Cons.IH mset_demote multiset.map_comp comp_def absorb_step del: absorb_fields)
qed

lemma foldl_demote_nextId [simp]: "nextId (foldl (demote t) s cs) = nextId s"
  by (induction cs arbitrary: s) simp_all

lemma sorted_matching: "sorted (map createdAt (findMatchingContacts em ph s))"
  by (simp add: findMatchingContacts_def)

lemma set_matching:
  "set (findMatchingContacts em ph s) = {c \<in> set (rows s). matches em ph c}"
  by (auto simp: findMatchingContacts_def matches_def)

lemma sorted_matching_of: "sorted (map createdAt (matching_of data s))"
  by (simp add: matching_of_def sorted_matching)

lemma matching_of_subset: "c \<in> set (matching_of data s) \<Longrightarrow> c \<in> set (rows s) \<and> deletedAt c = None"
  by (auto simp: matching_of_def set_matching matches_def)

lemma sorted_primaries: "sorted (map createdAt m) \<Longrightarrow> sorted (map createdAt (primaries m))"
  unfolding primaries_def by (induction m) auto

lemma absorbed_ids_short: "length (primaries m) \<le> 1 \<Longrightarrow> absorbed_ids m = []"
  by (cases "primaries m") (simp_all add: absorbed_ids_def)

lemma merge_step_single: "length (primaries m) \<le> 1 \<Longrightarrow> merge_step m s = s"
  by (simp add: merge_step_def primaries_def)

lemma merge_step_nextId [simp]: "nextId (merge_step m s) = nextId s"
  by (simp add: merge_step_def mergePrimaryContacts_def split: list.splits)

lemma merge_step_mset:
  assumes "sorted (map createdAt m)"
  shows "mset (rows (merge_step m s)) =
           image_mset (absorb (absorbed_ids m) (survivor_id m)) (mset (rows s))"
proof (cases "length (primaries m) > 1")
  case True
  have "sort_key createdAt (primaries m) = primaries m"
    using sorted_primaries[OF assms] by (rule sort_key_id_if_sorted)
  then show ?thesis
    using True
    by (cases "primaries m")
       (simp_all add: merge_step_def mergePrimaryContacts_def mset_foldl_demote absorbed_ids_def
          survivor_id_def primaries_def)
next
  case False
  then have "absorbed_ids m = []" by (simp add: absorbed_ids_short)
  then show ?thesis using False by (simp add: merge_step_single)
qed

lemma merge_step_set:
  assumes "sorted (map createdAt m)"
  shows "set (rows (merge_step m s)) = absorb (absorbed_ids m) (survivor_id m) ` set (rows s)"
proof -
  have "set_mset (mset (rows (merge_step m s))) =
        set_mset (image_mset (absorb (absorbed_ids m) (survivor_id m)) (mset (rows s)))"
    by (simp only: merge_step_mset[OF assms])
  then show ?thesis by simp
qed

lemma merge_step_ids:
  assumes "sorted (map createdAt m)"
  shows "mset (map id_c (rows (merge_step m s))) = mset (map id_c (rows s))"
proof -
  have "mset (map id_c (rows (merge_step m s))) = image_mset id_c (mset (rows (merge_step m s)))"
    by simp
  also have "\<dots> = image_mset id_c (mset (rows s))"
    by (simp add: merge_step_mset[OF assms] multiset.map_comp comp_def)
  finally show ?thesis by simp
qed

lemma merge_step_length:
  assumes "sorted (map createdAt m)"
  shows "length (rows (merge_step m s)) = length (rows s)"
  using merge_step_ids[OF assms, of s] by (metis length_map mset_eq_length)

lemma add_row_simps [simp]:
  "rows (add_row c s) = rows s @ [c]" "nextId (add_row c s) = Suc (nextId s)"
  by (simp_all add: add_row_def)

lemma create_eq:
  "create now em ph l prec s =
     (\<lparr>id_c = nextId s, phoneNumber = ph, email = em, linkedId = l, linkPrecedence = prec,
       createdAt = now, deletedAt = None\<rparr>,
      add_row \<lparr>id_c = nextId s, phoneNumber = ph, email = em, linkedId = l, linkPrecedence = prec,
               createdAt = now, deletedAt = None\<rparr> s)"
  by (simp add: create_def add_row_def Let_def)

lemma link_step_eq:
  "link_step now m d s =
     (if shouldCreateNewContact m (email_r d) (phoneNumber_r d)
      then (case findPrimaryContact m s of
              Inl e \<Rightarrow> Inl e
            | Inr fp \<Rightarrow> Inr (add_row (new_secondary now d (id_c fp) s) s))
      else Inr s)"
  by (simp add: link_step_def create_eq new_secondary_def split: sum.splits)

lemma foldl_older_in: "foldl older p ps \<in> set (p # ps)"
proof (induction ps arbitrary: p)
  case Nil
  then show ?case by simp
next
  case (Cons q qs)
  have "older p q = p \<or> older p q = q" by (simp add: older_def)
  then show ?case using Cons.IH[of "older p q"] by auto
qed

lemma createdAt_older:
  "createdAt (older p q) \<le> createdAt p \<and> createdAt (older p q) \<le> createdAt q"
  by (simp add: older_def)

lemma foldl_older_least: "y \<in> set (p # ps) \<Longrightarrow> createdAt (foldl older p ps) \<le> createdAt y"
proof (induction ps arbitrary: p y)
  case Nil
  then show ?case by simp
next
  case (Cons q qs)
  have step: "createdAt (foldl older (older p q) qs) \<le> createdAt z" if "z \<in> set (older p q # qs)" for z
    using that by (rule Cons.IH)
  have "createdAt (foldl older (older p q) qs) \<le> createdAt (older p q)"
    by (rule step) simp
  then have "createdAt (foldl older (older p q) qs) \<le> createdAt p"
    "createdAt (foldl older (older p q) qs) \<le> createdAt q"
    using createdAt_older[of p q] by simp_all
  then show ?case using Cons.prems step by auto
qed

text \<open>
  With a primary contact in the list, \<open>findPrimaryContact\<close> returns a primary contact of
  the list that no other one precedes in creation time.
\<close>

lemma findPrimaryContact_earliest:
  assumes "findPrimaryContact m s = Inr x"
    and "filter (\<lambda>c. linkPrecedence c = PRIMARY) m \<noteq> []"
  shows "x \<in> set m \<and> linkPrecedence x = PRIMARY \<and>
         (\<forall>y \<in> set m. linkPrecedence y = PRIMARY \<longrightarrow> createdAt x \<le> createdAt y)"
proof -
  obtain p ps where ps: "filter (\<lambda>c. linkPrecedence c = PRIMARY) m = p # ps"
    using assms(2) by (cases "filter (\<lambda>c. linkPrecedence c = PRIMARY) m") auto
  then have x: "x = foldl older p ps" using assms(1) by (simp add: findPrimaryContact_primaries)
  have "x \<in> set (filter (\<lambda>c. linkPrecedence c = PRIMARY) m)"
    unfolding ps x by (rule foldl_older_in)
  moreover have "createdAt x \<le> createdAt y" if "y \<in> set m" "linkPrecedence y = PRIMARY" for y
  proof -
    have "y \<in> set (filter (\<lambda>c. linkPrecedence c = PRIMARY) m)" using that by simp
    then have "y \<in> set (p # ps)" by (simp only: ps)
    then show ?thesis unfolding x by (rule foldl_older_least)
  qed
  ultimately show ?thesis by auto
qed

lemma findPrimaryContact_in:
  assumes "findPrimaryContact m s = Inr fp"
    and "\<And>c. c \<in> set m \<Longrightarrow> c \<in> set (rows s) \<and> deletedAt c = None"
  shows "fp \<in> set (rows s) \<and> linkPrecedence fp = PRIMARY \<and> deletedAt fp = None"
proof (cases "filter (\<lambda>c. linkPrecedence c = PRIMARY) m")
  case Nil
  then have "findFirst_primary (linkedIds_of m) s = Some fp"
    using assms(1) by (simp add: findPrimaryContact_secondaries split: if_splits option.splits)
  then show ?thesis using findFirst_primary_Some by blast
next
  case (Cons p ps)
  then have "fp = foldl older p ps"
    using assms(1) by (simp add: findPrimaryContact_primaries)
  then have "fp \<in> set (p # ps)" using foldl_older_in by simp
  then have "fp \<in> set (filter (\<lambda>c. linkPrecedence c = PRIMARY) m)" using Cons by simp
  then show ?thesis using assms(2) by simp
qed

lemma chain_ok_mono: "chain_ok R c \<Longrightarrow> set R \<subseteq> set R' \<Longrightarrow> chain_ok R' c"
  by (cases "linkPrecedence c") (auto simp: chain_ok_def list_ex_iff)

lemma chain_ok_cong: "set R = set R' \<Longrightarrow> chain_ok R c = chain_ok R' c"
  by (cases "linkPrecedence c") (simp_all add: chain_ok_def list_ex_iff)

lemma chain_inv_add_secondary:
  assumes "chain_inv s" and "fp \<in> set (rows s)" and "linkPrecedence fp = PRIMARY"
    and "deletedAt fp = None"
  shows "chain_inv (add_row (new_secondary now d (id_c fp) s) s)"
proof -
  let ?N = "new_secondary now d (id_c fp) s"
  have old: "\<And>c. c \<in> set (rows s) \<Longrightarrow> chain_ok (rows s @ [?N]) c"
    using assms(1) by (auto simp: chain_inv_def list_all_iff intro: chain_ok_mono)
  have "chain_ok (rows s @ [?N]) ?N"
    using assms(2-4) by (auto simp: chain_ok_def new_secondary_def list_ex_iff)
  then show ?thesis using old by (simp add: chain_inv_def list_all_iff)
qed

lemma chain_inv_add_primary:
  assumes "chain_inv s"
  shows "chain_inv (add_row (new_primary now d s) s)"
proof -
  let ?N = "new_primary now d s"
  have old: "\<And>c. c \<in> set (rows s) \<Longrightarrow> chain_ok (rows s @ [?N]) c"
    using assms(1) by (auto simp: chain_inv_def list_all_iff intro: chain_ok_mono)
  have "chain_ok (rows s @ [?N]) ?N"
    by (simp add: chain_ok_def new_primary_def)
  then show ?thesis using old by (simp add: chain_inv_def list_all_iff)
qed

lemma absorb_keeps_precedence:
  "id_c q \<notin> set ids \<Longrightarrow> linkPrecedence (absorb ids t q) = linkPrecedence q"
  by (simp add: absorb_def)

lemma absorb_keeps_free_primary:
  "id_c q \<notin> set ids \<Longrightarrow> linkedId q = None \<Longrightarrow> absorb ids t q = q"
  by (simp add: absorb_def links_into_def)

text \<open>A live primary contact that is not demoted is still one after the merge.\<close>

lemma primary_after_absorb:
  assumes "q \<in> set R" and "linkPrecedence q = PRIMARY" and "deletedAt q = None"
    and "id_c q \<notin> set ids"
  shows "list_ex (\<lambda>x. Some (id_c q) = Some (id_c x) \<and> linkPrecedence x = PRIMARY \<and> deletedAt x = None)
           (map (absorb ids t) R)"
proof -
  have "absorb ids t q \<in> set (map (absorb ids t) R)" using assms(1) by simp
  moreover have "linkPrecedence (absorb ids t q) = PRIMARY"
    using assms(2,4) by (simp add: absorb_keeps_precedence)
  ultimately show ?thesis using assms(3) unfolding list_ex_iff by (intro bexI) simp_all
qed

lemma chain_ok_absorb:
  assumes ok: "\<And>c. c \<in> set R \<Longrightarrow> chain_ok R c"
    and p: "p \<in> set R" "linkPrecedence p = PRIMARY" "deletedAt p = None" "id_c p \<notin> set ids"
    and c: "c \<in> set R"
  shows "chain_ok (map (absorb ids (id_c p)) R) (absorb ids (id_c p) c)"
proof -
  let ?R' = "map (absorb ids (id_c p)) R"
  have target: "list_ex (\<lambda>q. Some (id_c p) = Some (id_c q) \<and> linkPrecedence q = PRIMARY \<and> deletedAt q = None) ?R'"
    using p by (rule primary_after_absorb)
  show ?thesis
  proof (cases "deletedAt c = None")
    case False
    then show ?thesis by (simp add: chain_ok_def)
  next
    case live: True
    show ?thesis
    proof (cases "id_c c \<in> set ids")
      case True
      then show ?thesis using target by (simp add: absorb_def chain_ok_def)
    next
      case notin: False
      show ?thesis
      proof (cases "linkPrecedence c")
        case PRIMARY
        then have "linkedId c = None" using ok[OF c] live by (simp add: chain_ok_def)
        then have "absorb ids (id_c p) c = c" using notin by (rule absorb_keeps_free_primary[rotated])
        then show ?thesis using PRIMARY \<open>linkedId c = None\<close> by (simp add: chain_ok_def)
      next
        case SECONDARY
        show ?thesis
        proof (cases "links_into ids c")
          case True
          then show ?thesis using notin live target SECONDARY by (simp add: absorb_def chain_ok_def)
        next
          case False
          then have same: "absorb ids (id_c p) c = c" using notin by (simp add: absorb_def)
          obtain q where q: "q \<in> set R" "linkedId c = Some (id_c q)"
              "linkPrecedence q = PRIMARY" "deletedAt q = None"
            using ok[OF c] live SECONDARY by (auto simp: chain_ok_def list_ex_iff)
          have "id_c q \<notin> set ids" using False q(2) by (simp add: links_into_def)
          then have "list_ex (\<lambda>x. Some (id_c q) = Some (id_c x) \<and> linkPrecedence x = PRIMARY \<and> deletedAt x = None) ?R'"
            using q(1,3,4) by (intro primary_after_absorb)
          then show ?thesis using same q(2) SECONDARY by (simp add: chain_ok_def)
        qed
      qed
    qed
  qed
qed


lemma wf_store_distinct: "wf_store s \<Longrightarrow> distinct (map id_c (rows s))"
  by (simp add: wf_store_def)

lemma distinct_map_insort_key:
  "distinct (map g (insort_key f x xs)) \<longleftrightarrow> g x \<notin> g ` set xs \<and> distinct (map g xs)"
  by (induction xs) (auto simp: set_insort_key)

lemma distinct_map_sort_key: "distinct (map g (sort_key f xs)) \<longleftrightarrow> distinct (map g xs)"
  by (induction xs) (simp_all add: distinct_map_insort_key)

lemma distinct_ids_matching:
  "distinct (map id_c (rows s)) \<Longrightarrow> distinct (map id_c (findMatchingContacts em ph s))"
  by (simp add: findMatchingContacts_def distinct_map_sort_key distinct_map_filter)

lemma distinct_ids_matching_of:
  "wf_store s \<Longrightarrow> distinct (map id_c (matching_of data s))"
  by (simp add: matching_of_def distinct_ids_matching wf_store_distinct)

lemma primaries_Cons_facts:
  assumes "primaries m = p # ps" and "distinct (map id_c m)"
  shows "p \<in> set m" "linkPrecedence p = PRIMARY" "id_c p \<notin> set (map id_c ps)"
    "survivor_id m = id_c p" "absorbed_ids m = map id_c ps"
proof -
  have "p \<in> set (primaries m)" using assms(1) by simp
  then show "p \<in> set m" "linkPrecedence p = PRIMARY" by (simp_all add: primaries_def)
  have "distinct (map id_c (primaries m))"
    using assms(2) by (simp add: primaries_def distinct_map_filter)
  then show "id_c p \<notin> set (map id_c ps)" using assms(1) by simp
  show "survivor_id m = id_c p" "absorbed_ids m = map id_c ps"
    using assms(1) by (simp_all add: survivor_id_def absorbed_ids_def)
qed

lemma chain_inv_merge_step:
  assumes inv: "chain_inv s1"
    and srt: "sorted (map createdAt m)"
    and dist: "distinct (map id_c m)"
    and sub: "\<And>c. c \<in> set m \<Longrightarrow> c \<in> set (rows s1) \<and> deletedAt c = None"
  shows "chain_inv (merge_step m s1)"
proof (cases "primaries m")
  case Nil
  then show ?thesis using inv by (simp add: merge_step_single)
next
  case (Cons p ps)
  note f = primaries_Cons_facts[OF Cons dist]
  let ?g = "absorb (map id_c ps) (id_c p)"
  have ok: "\<And>c. c \<in> set (rows s1) \<Longrightarrow> chain_ok (rows s1) c"
    using inv by (simp add: chain_inv_def list_all_iff)
  have st: "set (rows (merge_step m s1)) = set (map ?g (rows s1))"
    using merge_step_set[OF srt, of s1] by (simp add: f(4,5))
  have "\<And>c. c \<in> set (rows s1) \<Longrightarrow> chain_ok (map ?g (rows s1)) (?g c)"
    using ok sub[OF f(1)] f(2,3) by (intro chain_ok_absorb) simp_all
  then have "\<And>c. c \<in> set (rows s1) \<Longrightarrow> chain_ok (rows (merge_step m s1)) (?g c)"
    by (simp only: chain_ok_cong[OF st])
  then show ?thesis
    unfolding chain_inv_def list_all_iff by (simp only: st) auto
qed

lemma link_below_mono: "link_below n c \<Longrightarrow> n \<le> n' \<Longrightarrow> link_below n' c"
  by (auto simp: link_below_def split: option.splits)

lemma wf_store_add_row:
  assumes "wf_store s" and "id_c c = nextId s" and "link_below (nextId s) c"
  shows "wf_store (add_row c s)"
  using assms
  by (auto simp: wf_store_def list_all_iff less_Suc_eq intro: link_below_mono)

lemma link_below_absorb:
  assumes "t < n" and "link_below n c"
  shows "link_below n (absorb ids t c)"
  using assms by (simp add: absorb_def link_below_def)

lemma wf_store_merge_step:
  assumes wf: "wf_store s1"
    and srt: "sorted (map createdAt m)"
    and sub: "\<And>c. c \<in> set m \<Longrightarrow> c \<in> set (rows s1)"
  shows "wf_store (merge_step m s1)"
proof (cases "primaries m")
  case Nil
  then show ?thesis using wf by (simp add: merge_step_single)
next
  case (Cons p ps)
  then have "p \<in> set (primaries m)" by simp
  then have "p \<in> set (rows s1)" using sub by (simp add: primaries_def)
  then have "id_c p < nextId s1" using wf by (simp add: wf_store_def list_all_iff)
  moreover have "survivor_id m = id_c p" using Cons by (simp add: survivor_id_def)
  ultimately have t: "survivor_id m < nextId s1" by simp
  let ?g = "absorb (absorbed_ids m) (survivor_id m)"
  have st: "set (rows (merge_step m s1)) = ?g ` set (rows s1)"
    by (rule merge_step_set[OF srt])
  have "distinct (map id_c (rows (merge_step m s1)))"
    using wf merge_step_ids[OF srt, of s1] by (metis wf_store_distinct mset_eq_imp_distinct_iff)
  moreover have "\<And>c. c \<in> set (rows s1) \<Longrightarrow> link_below (nextId s1) (?g c)"
    using wf t by (intro link_below_absorb) (simp_all add: wf_store_def list_all_iff)
  moreover have "\<And>c. c \<in> set (rows s1) \<Longrightarrow> id_c (?g c) < nextId s1"
    using wf by (simp add: wf_store_def list_all_iff)
  ultimately show ?thesis by (simp add: wf_store_def list_all_iff st)
qed

text \<open>With distinct ids the invariant of the rows is the invariant of the chains.\<close>

lemma filter_eq_singleton: "distinct xs \<Longrightarrow> p \<in> set xs \<Longrightarrow> filter (\<lambda>c. c = p) xs = [p]"
  by (induction xs) (auto simp: filter_empty_conv)

lemma same_id_same_row:
  "distinct (map id_c R) \<Longrightarrow> c \<in> set R \<Longrightarrow> p \<in> set R \<Longrightarrow> id_c c = id_c p \<Longrightarrow> c = p"
  by (meson distinct_map inj_onD)

lemma one_primary_per_chain_iff:
  assumes dist: "distinct (map id_c (rows s))"
  shows "one_primary_per_chain s \<longleftrightarrow> list_all (in_one_chain (rows s)) (rows s)"
proof
  assume opc: "one_primary_per_chain s"
  have first: "deletedAt c \<noteq> None \<or> is_live_primary c \<or>
           list_ex (\<lambda>p. is_live_primary p \<and> linkedId c = Some (id_c p)) (rows s)"
    if "c \<in> set (rows s)" for c
    using opc that by (simp add: one_primary_per_chain_def list_all_iff)
  have second: "x = p \<or> (linkPrecedence x = SECONDARY \<and> linkedId x = Some (id_c p))"
    if "p \<in> set (rows s)" "is_live_primary p" "x \<in> set (chain_rows (id_c p) s)" for p x
    using opc that by (auto simp: one_primary_per_chain_def list_all_iff)
  have "in_one_chain (rows s) c" if c: "c \<in> set (rows s)" for c
  proof (cases "deletedAt c = None")
    case False
    then show ?thesis by (simp add: in_one_chain_def)
  next
    case live: True
    show ?thesis
    proof (cases "linkPrecedence c")
      case SECONDARY
      then show ?thesis
        using first[OF c] live by (simp add: in_one_chain_def is_live_primary_def)
    next
      case PRIMARY
      have "\<not> (is_live_primary p \<and> linkedId c = Some (id_c p) \<and> id_c p \<noteq> id_c c)"
        if p: "p \<in> set (rows s)" for p
      proof
        assume a: "is_live_primary p \<and> linkedId c = Some (id_c p) \<and> id_c p \<noteq> id_c c"
        then have "c \<in> set (chain_rows (id_c p) s)" using c live by (simp add: chain_rows_def)
        then have "c = p \<or> (linkPrecedence c = SECONDARY \<and> linkedId c = Some (id_c p))"
          using second[OF p] a by blast
        then show False using a PRIMARY by auto
      qed
      then show ?thesis using PRIMARY by (simp add: in_one_chain_def list_ex_iff)
    qed
  qed
  then show "list_all (in_one_chain (rows s)) (rows s)" by (simp add: list_all_iff)
next
  assume "list_all (in_one_chain (rows s)) (rows s)"
  then have ok: "\<And>c. c \<in> set (rows s) \<Longrightarrow> in_one_chain (rows s) c"
    by (simp add: list_all_iff)
  have a: "deletedAt c \<noteq> None \<or> is_live_primary c \<or>
           list_ex (\<lambda>p. is_live_primary p \<and> linkedId c = Some (id_c p)) (rows s)"
    if "c \<in> set (rows s)" for c
    using ok[OF that]
    by (cases "linkPrecedence c") (auto simp: in_one_chain_def is_live_primary_def)
  have b: "filter (\<lambda>c. linkPrecedence c = PRIMARY) (chain_rows (id_c p) s) = [p] \<and>
           list_all (\<lambda>c. c = p \<or> (linkPrecedence c = SECONDARY \<and> linkedId c = Some (id_c p)))
             (chain_rows (id_c p) s)"
    if p: "p \<in> set (rows s)" and lp: "is_live_primary p" for p
  proof -
    let ?Q = "\<lambda>c. (id_c c = id_c p \<or> linkedId c = Some (id_c p)) \<and> deletedAt c = None"
    have mem: "c = p \<or> (linkPrecedence c = SECONDARY \<and> linkedId c = Some (id_c p))"
      if c: "c \<in> set (rows s)" and q: "?Q c" for c
    proof (cases "id_c c = id_c p")
      case True
      then show ?thesis using same_id_same_row[OF dist c p] by simp
    next
      case False
      then have l: "linkedId c = Some (id_c p)" using q by simp
      have "linkPrecedence c = SECONDARY"
      proof (cases "linkPrecedence c")
        case PRIMARY
        then have "\<not> (is_live_primary p \<and> linkedId c = Some (id_c p) \<and> id_c p \<noteq> id_c c)"
          using ok[OF c] q p by (auto simp: in_one_chain_def list_ex_iff)
        then show ?thesis using lp l False by simp
      qed
      then show ?thesis using l by simp
    qed
    have "filter (\<lambda>c. linkPrecedence c = PRIMARY) (filter ?Q (rows s)) = filter (\<lambda>c. c = p) (rows s)"
      unfolding filter_filter
    proof (rule filter_cong[OF refl])
      fix c assume c: "c \<in> set (rows s)"
      show "(?Q c \<and> linkPrecedence c = PRIMARY) = (c = p)"
        using mem[OF c] lp by (auto simp: is_live_primary_def)
    qed
    also have "\<dots> = [p]"
      using dist p by (intro filter_eq_singleton) (simp_all add: distinct_map)
    finally have "filter (\<lambda>c. linkPrecedence c = PRIMARY) (chain_rows (id_c p) s) = [p]"
      by (simp add: chain_rows_def filter_sort)
    moreover have "list_all (\<lambda>c. c = p \<or> (linkPrecedence c = SECONDARY \<and> linkedId c = Some (id_c p)))
             (chain_rows (id_c p) s)"
      using mem by (simp add: chain_rows_def list_all_iff)
    ultimately show ?thesis by simp
  qed
  show "one_primary_per_chain s"
    unfolding one_primary_per_chain_def
  proof (intro conjI)
    show "list_all (\<lambda>c. deletedAt c \<noteq> None \<or> is_live_primary c \<or>
                     list_ex (\<lambda>p. is_live_primary p \<and> linkedId c = Some (id_c p)) (rows s))
            (rows s)"
      using a by (simp add: list_all_iff)
    show "list_all (\<lambda>p. \<not> is_live_primary p \<or>
                     (filter (\<lambda>c. linkPrecedence c = PRIMARY) (chain_rows (id_c p) s) = [p] \<and>
                      list_all (\<lambda>c. c = p \<or>
                                     (linkPrecedence c = SECONDARY \<and> linkedId c = Some (id_c p)))
                        (chain_rows (id_c p) s)))
            (rows s)"
      unfolding list_all_iff[of _ "rows s"] using b by blast
  qed
qed

lemma chain_ok_in_one_chain: "chain_ok R c \<Longrightarrow> in_one_chain R c"
  by (cases "linkPrecedence c")
     (auto simp: chain_ok_def in_one_chain_def is_live_primary_def list_ex_iff)

lemma chain_inv_one_primary:
  assumes "distinct (map id_c (rows s))" and "chain_inv s"
  shows "one_primary_per_chain s"
  using assms(2) unfolding one_primary_per_chain_iff[OF assms(1)] chain_inv_def list_all_iff
  by (auto intro: chain_ok_in_one_chain)

text \<open>The invariant of the chains is kept by a new row and by a merge.\<close>

lemma in_one_chain_cong: "set R = set R' \<Longrightarrow> in_one_chain R c = in_one_chain R' c"
  by (cases "linkPrecedence c") (simp_all add: in_one_chain_def list_ex_iff)

lemma in_one_chain_add_secondary:
  assumes "list_all (in_one_chain (rows s)) (rows s)" and "fp \<in> set (rows s)"
    and "linkPrecedence fp = PRIMARY" and "deletedAt fp = None"
  shows "list_all (in_one_chain (rows (add_row (new_secondary now d (id_c fp) s) s)))
           (rows (add_row (new_secondary now d (id_c fp) s) s))"
proof -
  let ?N = "new_secondary now d (id_c fp) s"
  have nlp: "\<not> is_live_primary ?N" by (simp add: is_live_primary_def new_secondary_def)
  have old: "in_one_chain (rows s @ [?N]) c" if "c \<in> set (rows s)" for c
  proof -
    have "in_one_chain (rows s) c" using assms(1) that by (simp add: list_all_iff)
    then show ?thesis
      using nlp by (cases "linkPrecedence c") (auto simp: in_one_chain_def list_ex_iff)
  qed
  have "in_one_chain (rows s @ [?N]) ?N"
    using assms(2-4)
    by (auto simp: in_one_chain_def new_secondary_def list_ex_iff is_live_primary_def)
  then show ?thesis using old by (simp add: list_all_iff)
qed

lemma in_one_chain_add_primary:
  assumes "list_all (in_one_chain (rows s)) (rows s)" and "wf_store s"
  shows "list_all (in_one_chain (rows (add_row (new_primary now d s) s)))
           (rows (add_row (new_primary now d s) s))"
proof -
  let ?N = "new_primary now d s"
  have old: "in_one_chain (rows s @ [?N]) c" if c: "c \<in> set (rows s)" for c
  proof -
    have ok: "in_one_chain (rows s) c" using assms(1) c by (simp add: list_all_iff)
    have "link_below (nextId s) c" using assms(2) c by (simp add: wf_store_def list_all_iff)
    then have "linkedId c \<noteq> Some (id_c ?N)"
      by (auto simp: link_below_def new_primary_def)
    then show ?thesis
      using ok by (cases "linkPrecedence c") (auto simp: in_one_chain_def list_ex_iff)
  qed
  have "in_one_chain (rows s @ [?N]) ?N"
    by (simp add: in_one_chain_def new_primary_def list_ex_iff)
  then show ?thesis using old by (simp add: list_all_iff)
qed

lemma live_primary_absorb:
  "is_live_primary (absorb ids t q) \<longleftrightarrow> is_live_primary q \<and> id_c q \<notin> set ids"
  by (auto simp: is_live_primary_def absorb_def)

lemma in_one_chain_absorb:
  assumes ok: "\<And>c. c \<in> set R \<Longrightarrow> in_one_chain R c"
    and p: "p \<in> set R" "is_live_primary p" "id_c p \<notin> set ids"
    and A: "\<And>a. a \<in> set ids \<Longrightarrow> \<exists>q \<in> set R. id_c q = a \<and> is_live_primary q"
    and c: "c \<in> set R"
  shows "in_one_chain (map (absorb ids (id_c p)) R) (absorb ids (id_c p) c)"
proof -
  let ?g = "absorb ids (id_c p)"
  let ?R' = "map ?g R"
  have target: "list_ex (\<lambda>q. is_live_primary q \<and> Some (id_c p) = Some (id_c q)) ?R'"
  proof -
    have "?g p \<in> set ?R'" using p(1) by simp
    moreover have "is_live_primary (?g p)" using p(2,3) by (simp add: live_primary_absorb)
    ultimately show ?thesis unfolding list_ex_iff by (intro bexI[of _ "?g p"]) simp_all
  qed
  show ?thesis
  proof (cases "deletedAt c = None")
    case False
    then show ?thesis by (simp add: in_one_chain_def)
  next
    case live: True
    show ?thesis
    proof (cases "id_c c \<in> set ids")
      case True
      then show ?thesis using target by (simp add: absorb_def in_one_chain_def)
    next
      case notin: False
      show ?thesis
      proof (cases "linkPrecedence c")
        case PRIMARY
        have nol: "\<not> links_into ids c"
        proof
          assume "links_into ids c"
          then obtain a where a: "linkedId c = Some a" "a \<in> set ids"
            by (auto simp: links_into_def split: option.splits)
          then obtain q where q: "q \<in> set R" "id_c q = a" "is_live_primary q" using A by blast
          have "id_c q \<noteq> id_c c" using q(2) a(2) notin by auto
          then show False
            using ok[OF c] live PRIMARY q a(1) by (auto simp: in_one_chain_def list_ex_iff)
        qed
        then have same: "?g c = c" using notin by (simp add: absorb_def)
        have "\<not> (is_live_primary x \<and> linkedId c = Some (id_c x) \<and> id_c x \<noteq> id_c c)"
          if "x \<in> set ?R'" for x
        proof -
          from that have "x \<in> ?g ` set R" by simp
          then obtain q where q: "q \<in> set R" "x = ?g q" by blast
          have "\<not> (is_live_primary q \<and> linkedId c = Some (id_c q) \<and> id_c q \<noteq> id_c c)"
            using ok[OF c] live PRIMARY q(1) by (auto simp: in_one_chain_def list_ex_iff)
          then show ?thesis using q(2) by (auto simp: live_primary_absorb)
        qed
        then have "\<not> list_ex (\<lambda>x. is_live_primary x \<and> linkedId c = Some (id_c x) \<and> id_c x \<noteq> id_c c) ?R'"
          unfolding list_ex_iff by blast
        then show ?thesis using PRIMARY by (simp only: same in_one_chain_def) simp
      next
        case SECONDARY
        show ?thesis
        proof (cases "links_into ids c")
          case True
          then show ?thesis
            using notin live target SECONDARY by (simp add: absorb_def in_one_chain_def)
        next
          case False
          then have same: "?g c = c" using notin by (simp add: absorb_def)
          obtain q where q: "q \<in> set R" "linkedId c = Some (id_c q)" "is_live_primary q"
            using ok[OF c] live SECONDARY by (auto simp: in_one_chain_def list_ex_iff)
          have "id_c q \<notin> set ids" using False q(2) by (simp add: links_into_def)
          then have "is_live_primary (?g q)" using q(3) by (simp add: live_primary_absorb)
          moreover have "?g q \<in> set ?R'" using q(1) by simp
          ultimately have "list_ex (\<lambda>x. is_live_primary x \<and> linkedId c = Some (id_c x)) ?R'"
            unfolding list_ex_iff using q(2) by (intro bexI[of _ "?g q"]) simp_all
          then show ?thesis using same SECONDARY by (simp add: in_one_chain_def)
        qed
      qed
    qed
  qed
qed

lemma in_one_chain_merge_step:
  assumes inv: "list_all (in_one_chain (rows s1)) (rows s1)"
    and srt: "sorted (map createdAt m)"
    and dist: "distinct (map id_c m)"
    and sub: "\<And>c. c \<in> set m \<Longrightarrow> c \<in> set (rows s1) \<and> deletedAt c = None"
  shows "list_all (in_one_chain (rows (merge_step m s1))) (rows (merge_step m s1))"
proof (cases "primaries m")
  case Nil
  then show ?thesis using inv by (simp add: merge_step_single)
next
  case (Cons p ps)
  note f = primaries_Cons_facts[OF Cons dist]
  let ?g = "absorb (map id_c ps) (id_c p)"
  have ok: "\<And>c. c \<in> set (rows s1) \<Longrightarrow> in_one_chain (rows s1) c"
    using inv by (simp add: list_all_iff)
  have st: "set (rows (merge_step m s1)) = set (map ?g (rows s1))"
    using merge_step_set[OF srt, of s1] by (simp add: f(4,5))
  have lp: "is_live_primary p" using sub[OF f(1)] f(2) by (simp add: is_live_primary_def)
  have A: "\<exists>q \<in> set (rows s1). id_c q = a \<and> is_live_primary q" if "a \<in> set (map id_c ps)" for a
  proof -
    from that have "a \<in> id_c ` set ps" by simp
    then obtain q where q: "q \<in> set ps" "id_c q = a" by blast
    then have "q \<in> set (primaries m)" using Cons by simp
    then have "q \<in> set m" "linkPrecedence q = PRIMARY" by (simp_all add: primaries_def)
    then show ?thesis using sub[of q] q(2) by (auto simp: is_live_primary_def)
  qed
  have "\<And>c. c \<in> set (rows s1) \<Longrightarrow> in_one_chain (map ?g (rows s1)) (?g c)"
    using ok sub[OF f(1)] lp f(3) A by (intro in_one_chain_absorb) simp_all
  then have "\<And>c. c \<in> set (rows s1) \<Longrightarrow> in_one_chain (rows (merge_step m s1)) (?g c)"
    by (simp only: in_one_chain_cong[OF st])
  then show ?thesis
    unfolding list_all_iff by (simp only: st) auto
qed

lemma snd_identify:
  "snd (identify now data s) =
     (if matching_of data s = [] then add_row (new_primary now (sanitizeInput data) s) s
      else case link_step now (matching_of data s) (sanitizeInput data) s of
             Inl e \<Rightarrow> s
           | Inr s1 \<Rightarrow> merge_step (matching_of data s) s1)"
  by (simp add: identify_steps handleNewContact_eq processExistingContacts_steps add_row_def
           split: sum.splits)

subsection \<open>The example requests, evaluated\<close>

lemma identify_bridge_two_chains:
  "identify 300 bridge two_chains =
     (Inr \<lparr>primaryContactId = 1,
           emails = [''george@hillvalley.edu'', ''biffsucks@hillvalley.edu''],
           phoneNumbers = [''919191'', ''717171''], secondaryContactIds = [2, 3]\<rparr>,
      one_chain)"
  by code_simp

lemma identify_twin_bridge:
  "identify 60 twin_bridge twins =
     (Inl NoPrimaryInChain,
      \<lparr>rows = [twin_a,
               twin_b\<lparr>linkPrecedence := SECONDARY, linkedId := Some 1\<rparr>,
               \<lparr>id_c = 3, phoneNumber = Some ''222'', email = Some ''a@x.io'', linkedId = Some 1,
                linkPrecedence = SECONDARY, createdAt = 60, deletedAt = None\<rparr>],
        nextId = 4\<rparr>)"
  by code_simp

subsection \<open>Sanitizing\<close>

lemma is_space_lower_char [simp]: "is_space (lower_char c) = is_space c"
  by (auto simp: is_space_def lower_char_def is_capital_def Let_def)













subsection \<open>The store after a merge\<close>

lemma find_by_id:
  "distinct (map id_c R) \<Longrightarrow> x \<in> set R \<Longrightarrow> find (\<lambda>c. id_c c = id_c x) R = Some x"
  by (induction R) (auto simp: image_iff)

text \<open>After a merge a row is found under its id as \<open>absorb\<close> leaves it.\<close>

lemma contact_by_id_merge_step:
  assumes dist: "distinct (map id_c (rows s1))" and srt: "sorted (map createdAt m)"
    and x: "x \<in> set (rows s1)"
  shows "contact_by_id (id_c x) (merge_step m s1) =
           Some (absorb (absorbed_ids m) (survivor_id m) x)"
proof -
  let ?g = "absorb (absorbed_ids m) (survivor_id m)"
  have d: "distinct (map id_c (rows (merge_step m s1)))"
    using dist merge_step_ids[OF srt, of s1] by (metis mset_eq_imp_distinct_iff)
  have "?g x \<in> set (rows (merge_step m s1))"
    using x by (simp add: merge_step_set[OF srt])
  then have "find (\<lambda>c. id_c c = id_c (?g x)) (rows (merge_step m s1)) = Some (?g x)"
    using d by (intro find_by_id)
  then show ?thesis by (simp add: contact_by_id_def)
qed

lemma link_step_primaries:
  assumes "primaries m = p # ps"
  shows "\<exists>s1. link_step now m d s = Inr s1 \<and>
           (s1 = s \<or> s1 = add_row (new_secondary now d (id_c (foldl older p ps)) s) s)"
  using assms
  by (simp add: link_step_eq findPrimaryContact_primaries primaries_def)

lemma wf_store_link_step:
  assumes wf: "wf_store s" and ls: "link_step now m d s = Inr s1"
    and sub: "\<And>c. c \<in> set m \<Longrightarrow> c \<in> set (rows s) \<and> deletedAt c = None"
  shows "wf_store s1 \<and> set (rows s) \<subseteq> set (rows s1)"
proof (cases "shouldCreateNewContact m (email_r d) (phoneNumber_r d)")
  case False
  then have "s1 = s" using ls by (simp add: link_step_eq)
  then show ?thesis using wf by simp
next
  case True
  then obtain fp where fp: "findPrimaryContact m s = Inr fp"
    and s1: "s1 = add_row (new_secondary now d (id_c fp) s) s"
    using ls by (auto simp: link_step_eq split: sum.splits)
  have "fp \<in> set (rows s) \<and> linkPrecedence fp = PRIMARY \<and> deletedAt fp = None"
    using fp sub by (rule findPrimaryContact_in)
  then have "id_c fp < nextId s" using wf by (simp add: wf_store_def list_all_iff)
  then have "wf_store s1"
    unfolding s1 using wf by (intro wf_store_add_row) (simp_all add: new_secondary_def link_below_def)
  then show ?thesis using s1 by auto
qed

lemma identify_bridge_four_rows:
  "snd (identify 300 bridge four_rows) =
     \<lparr>rows = [george, lorraine,
              \<lparr>id_c = 5, phoneNumber = Some ''717171'', email = Some ''george@hillvalley.edu'',
               linkedId = Some 1, linkPrecedence = SECONDARY, createdAt = 300, deletedAt = None\<rparr>,
              biff_absorbed, marty\<lparr>linkedId := Some 1\<rparr>],
       nextId = 6\<rparr>"
  by code_simp

subsection \<open>The same request once more\<close>

lemma shouldCreate_exact:
  assumes "c \<in> set cs" and "email c = em" and "phoneNumber c = ph"
    and "truthy em \<or> truthy ph"
  shows "\<not> shouldCreateNewContact cs em ph"
proof -
  have e: "em \<noteq> None \<Longrightarrow> list_ex (\<lambda>c. strict_eq (email c) em) cs"
    using assms(1,2) unfolding list_ex_iff by (intro bexI[of _ c]) auto
  have p: "ph \<noteq> None \<Longrightarrow> list_ex (\<lambda>c. strict_eq (phoneNumber c) ph) cs"
    using assms(1,3) unfolding list_ex_iff by (intro bexI[of _ c]) auto
  have b: "em \<noteq> None \<Longrightarrow> ph \<noteq> None \<Longrightarrow>
           list_ex (\<lambda>c. strict_eq (email c) em \<and> strict_eq (phoneNumber c) ph) cs"
    using assms(1-3) unfolding list_ex_iff by (intro bexI[of _ c]) auto
  show ?thesis
  proof (cases "truthy em \<and> truthy ph")
    case True
    then have "em \<noteq> None" "ph \<noteq> None" by (cases em; cases ph; simp)+
    then show ?thesis using b by (simp add: shouldCreateNewContact_def)
  next
    case False
    show ?thesis
    proof (cases "truthy em")
      case True
      then have "em \<noteq> None" by (cases em) simp_all
      then show ?thesis using e True False by (simp add: shouldCreateNewContact_def)
    next
      case nem: False
      then have "truthy ph" using assms(4) by simp
      moreover from this have "ph \<noteq> None" by (cases ph) simp_all
      ultimately show ?thesis using p nem by (simp add: shouldCreateNewContact_def)
    qed
  qed
qed

lemma shouldCreate_image:
  assumes "set cs' = g ` set cs"
    and "\<And>c. email (g c) = email c" and "\<And>c. phoneNumber (g c) = phoneNumber c"
  shows "shouldCreateNewContact cs' em ph = shouldCreateNewContact cs em ph"
  unfolding shouldCreateNewContact_def list_ex_iff by (auto simp: assms)

lemma matches_absorb [simp]: "matches em ph (absorb A t c) = matches em ph c"
  by (simp add: matches_def)

text \<open>
  When the rows of a store are those of another, each changed by \<open>absorb\<close>, in some
  order, the matching set of a request is so as well.
\<close>

lemma mset_matching_of_absorb:
  assumes "mset (rows s') = image_mset (absorb A t) (mset (rows s))"
  shows "mset (matching_of data s') = image_mset (absorb A t) (mset (matching_of data s))"
proof -
  let ?em = "email_r (sanitizeInput data)" and ?ph = "phoneNumber_r (sanitizeInput data)"
  have "mset (filter (matches ?em ?ph) (rows s')) =
        filter_mset (matches ?em ?ph) (image_mset (absorb A t) (mset (rows s)))"
    by (simp add: assms)
  also have "\<dots> = image_mset (absorb A t) (mset (filter (matches ?em ?ph) (rows s)))"
    by (simp add: filter_mset_image_mset comp_def)
  finally show ?thesis
    by (simp add: matching_of_def findMatchingContacts_def)
qed

lemma mset_primaries_absorb:
  assumes "mset m' = image_mset (absorb A t) (mset m)"
  shows "mset (primaries m') =
           image_mset (absorb A t) (mset (filter (\<lambda>c. id_c c \<notin> set A) (primaries m)))"
proof -
  have "mset (primaries m') =
        filter_mset (\<lambda>c. linkPrecedence c = PRIMARY) (image_mset (absorb A t) (mset m))"
    by (simp add: primaries_def assms)
  also have "\<dots> = image_mset (absorb A t)
                    (filter_mset (\<lambda>c. linkPrecedence (absorb A t c) = PRIMARY) (mset m))"
    by (simp add: filter_mset_image_mset comp_def)
  also have "(\<lambda>c. linkPrecedence (absorb A t c) = PRIMARY) =
             (\<lambda>c. linkPrecedence c = PRIMARY \<and> id_c c \<notin> set A)"
    by (auto simp: absorb_def)
  finally show ?thesis by (simp add: primaries_def conj_commute)
qed

lemma set_matching_of:
  "set (matching_of data s) =
     {c \<in> set (rows s). matches (email_r (sanitizeInput data)) (phoneNumber_r (sanitizeInput data)) c}"
  by (simp add: matching_of_def set_matching)

lemma matching_of_nonempty_truthy:
  "matching_of data s \<noteq> [] \<Longrightarrow>
   truthy (email_r (sanitizeInput data)) \<or> truthy (phoneNumber_r (sanitizeInput data))"
  by (auto simp: matching_of_def findMatchingContacts_def split: if_splits)

lemma primaries_matching_add_secondary:
  assumes "linkPrecedence n = SECONDARY"
  shows "primaries (matching_of data (add_row n s)) = primaries (matching_of data s)"
  using assms
  by (simp add: matching_of_def findMatchingContacts_def primaries_def filter_sort)

lemma filter_not_absorbed:
  assumes "distinct (map id_c (p # ps))"
  shows "filter (\<lambda>c. id_c c \<notin> set (map id_c ps)) (p # ps) = [p]"
proof -
  have "filter (\<lambda>c. id_c c \<notin> set (map id_c ps)) ps = []"
    by (auto simp: filter_empty_conv)
  then show ?thesis using assms by auto
qed


lemma sort_key_Nil_iff: "sort_key f xs = [] \<longleftrightarrow> xs = []"
  by (metis length_0_conv length_sort)

lemma chain_rows_new_primary:
  assumes "wf_store s"
  shows "chain_rows (nextId s) (add_row (new_primary now d s) s) = [new_primary now d s]"
proof -
  let ?P = "new_primary now d s"
  have "\<And>c. c \<in> set (rows s) \<Longrightarrow> id_c c \<noteq> nextId s \<and> linkedId c \<noteq> Some (nextId s)"
    using assms by (auto simp: wf_store_def list_all_iff link_below_def split: option.splits)
  then have "filter (\<lambda>c. (id_c c = nextId s \<or> linkedId c = Some (nextId s)) \<and> deletedAt c = None) (rows s) = []"
    by (auto simp: filter_empty_conv)
  then show ?thesis by (simp add: chain_rows_def new_primary_def)
qed

lemma identify_twice_new:
  assumes wf: "wf_store s" and m0: "matching_of data s = []"
    and ne: "truthy (email_r (sanitizeInput data)) \<or> truthy (phoneNumber_r (sanitizeInput data))"
  shows "identify now' data (snd (identify now data s)) =
           (fst (identify now data s), snd (identify now data s))"
proof -
  let ?d = "sanitizeInput data"
  let ?em = "email_r ?d" and ?ph = "phoneNumber_r ?d"
  let ?P = "new_primary now ?d s"
  let ?s1 = "add_row ?P s"
  let ?resp = "\<lparr>primaryContactId = nextId s, emails = unique_values [?em],
                phoneNumbers = unique_values [?ph], secondaryContactIds = []\<rparr>"
  have r: "identify now data s = (Inr ?resp, ?s1)"
    using m0 by (simp add: identify_steps handleNewContact_eq add_row_def)
  have mP: "matches ?em ?ph ?P" using ne by (auto simp: matches_def new_primary_def)
  have "filter (matches ?em ?ph) (rows s) = []"
    using m0 ne by (auto simp: matching_of_def findMatchingContacts_def sort_key_Nil_iff)
  then have m1: "matching_of data ?s1 = [?P]"
    using ne mP by (auto simp: matching_of_def findMatchingContacts_def)
  have "\<not> shouldCreateNewContact [?P] ?em ?ph"
    using ne by (intro shouldCreate_exact[of ?P]) (simp_all add: new_primary_def)
  then have ls: "link_step now' [?P] ?d ?s1 = Inr ?s1" by (simp add: link_step_eq)
  have ms: "merge_step [?P] ?s1 = ?s1" by (simp add: merge_step_def)
  have fp: "findPrimaryContact [?P] ?s1 = Inr ?P"
    by (simp add: findPrimaryContact_def new_primary_def)
  have "id_c ?P = nextId s" by (simp add: new_primary_def)
  then have "getAllContactsInChain [?P] ?s1 = Inr [?P]"
    using chain_rows_new_primary[OF wf, of now ?d] fp by (simp add: getAllContactsInChain_def)
  moreover have "formatResponse [?P] = Inr ?resp"
    by (simp add: formatResponse_eq new_primary_def)
  ultimately have "respond [?P] ?s1 = (Inr ?resp, ?s1)" by (simp add: respond_def)
  then have "identify now' data ?s1 = (Inr ?resp, ?s1)"
    using m1 ls ms by (simp add: identify_steps processExistingContacts_steps)
  then show ?thesis using r by simp
qed

lemma identify_twice_error:
  assumes "matching_of data s \<noteq> []"
    and "link_step now (matching_of data s) (sanitizeInput data) s = Inl e"
  shows "identify now' data (snd (identify now data s)) =
           (fst (identify now data s), snd (identify now data s))"
proof -
  let ?m = "matching_of data s" and ?d = "sanitizeInput data"
  have "shouldCreateNewContact ?m (email_r ?d) (phoneNumber_r ?d) \<and> findPrimaryContact ?m s = Inl e"
    using assms(2) by (auto simp: link_step_eq split: if_splits sum.splits)
  then have "link_step now' ?m ?d s = Inl e" by (simp add: link_step_eq)
  then have "identify now' data s = (Inl e, s)"
    using assms(1) by (simp add: identify_steps processExistingContacts_steps)
  moreover have "identify now data s = (Inl e, s)"
    using assms by (simp add: identify_steps processExistingContacts_steps)
  ultimately show ?thesis by simp
qed


lemma findFirst_primary_cong:
  "set ids = set ids' \<Longrightarrow> findFirst_primary ids s = findFirst_primary ids' s"
  by (simp add: findFirst_primary_def)

lemma set_linkedIds_of: "set (linkedIds_of m) = {l. \<exists>c \<in> set m. linkedId c = Some l}"
  unfolding linkedIds_of_def by (induction m) (auto split: option.splits)

lemma link_step_Inr_cases:
  assumes "link_step now m d s = Inr sA"
  shows "(\<not> shouldCreateNewContact m (email_r d) (phoneNumber_r d) \<and> sA = s) \<or>
         (shouldCreateNewContact m (email_r d) (phoneNumber_r d) \<and>
          (\<exists>fp. findPrimaryContact m s = Inr fp \<and> sA = add_row (new_secondary now d (id_c fp) s) s))"
  using assms by (auto simp: link_step_eq split: if_splits sum.splits)

lemma new_secondary_matches:
  assumes "truthy (email_r d) \<or> truthy (phoneNumber_r d)"
  shows "matches (email_r d) (phoneNumber_r d) (new_secondary now d t s)"
  using assms by (auto simp: matches_def new_secondary_def)

text \<open>After the link step the matching set needs no further contact.\<close>

lemma no_create_after_link_step:
  assumes ne: "matching_of data s \<noteq> []"
    and ls: "link_step now (matching_of data s) (sanitizeInput data) s = Inr sA"
  shows "\<not> shouldCreateNewContact (matching_of data sA)
             (email_r (sanitizeInput data)) (phoneNumber_r (sanitizeInput data))"
proof -
  let ?d = "sanitizeInput data"
  let ?em = "email_r ?d" and ?ph = "phoneNumber_r ?d"
  have tr: "truthy ?em \<or> truthy ?ph" using ne by (rule matching_of_nonempty_truthy)
  from link_step_Inr_cases[OF ls] show ?thesis
  proof
    assume "\<not> shouldCreateNewContact (matching_of data s) ?em ?ph \<and> sA = s"
    then show ?thesis by simp
  next
    assume "shouldCreateNewContact (matching_of data s) ?em ?ph \<and>
            (\<exists>fp. findPrimaryContact (matching_of data s) s = Inr fp \<and>
                  sA = add_row (new_secondary now ?d (id_c fp) s) s)"
    then obtain fp where fp: "findPrimaryContact (matching_of data s) s = Inr fp"
      and sA: "sA = add_row (new_secondary now ?d (id_c fp) s) s" by (elim conjE exE)
    let ?N = "new_secondary now ?d (id_c fp) s"
    have "?N \<in> set (matching_of data sA)"
      using new_secondary_matches[OF tr] by (simp add: set_matching_of sA)
    then show ?thesis
      using tr by (intro shouldCreate_exact[of ?N]) (simp_all add: new_secondary_def)
  qed
qed

lemma primaries_after_link_step:
  assumes "link_step now (matching_of data s) (sanitizeInput data) s = Inr sA"
  shows "primaries (matching_of data sA) = primaries (matching_of data s)"
  using link_step_Inr_cases[OF assms]
  by (auto simp: primaries_matching_add_secondary new_secondary_def)

lemma matching_after_link_step_nonempty:
  assumes "matching_of data s \<noteq> []"
    and "link_step now (matching_of data s) (sanitizeInput data) s = Inr sA"
  shows "matching_of data sA \<noteq> []"
proof -
  obtain c where "c \<in> set (matching_of data s)" using assms(1) by (cases "matching_of data s") auto
  moreover have "set (rows s) \<subseteq> set (rows sA)"
    using link_step_Inr_cases[OF assms(2)] by auto
  ultimately have "c \<in> set (matching_of data sA)" by (auto simp: set_matching_of)
  then show ?thesis by auto
qed

text \<open>With no primary contact in the matching set, the link step does not change which
  primary contact is found.\<close>

lemma findPrimaryContact_after_link_step:
  assumes ne: "matching_of data s \<noteq> []"
    and ls: "link_step now (matching_of data s) (sanitizeInput data) s = Inr sA"
    and np: "primaries (matching_of data s) = []"
  shows "findPrimaryContact (matching_of data sA) sA = findPrimaryContact (matching_of data s) sA"
proof -
  let ?d = "sanitizeInput data"
  let ?m = "matching_of data s"
  have tr: "truthy (email_r ?d) \<or> truthy (phoneNumber_r ?d)"
    using ne by (rule matching_of_nonempty_truthy)
  from link_step_Inr_cases[OF ls] show ?thesis
  proof
    assume "\<not> shouldCreateNewContact ?m (email_r ?d) (phoneNumber_r ?d) \<and> sA = s"
    then show ?thesis by simp
  next
    assume "shouldCreateNewContact ?m (email_r ?d) (phoneNumber_r ?d) \<and>
            (\<exists>fp. findPrimaryContact ?m s = Inr fp \<and>
                  sA = add_row (new_secondary now ?d (id_c fp) s) s)"
    then obtain fp where fp: "findPrimaryContact ?m s = Inr fp"
      and sA: "sA = add_row (new_secondary now ?d (id_c fp) s) s" by (elim conjE exE)
    let ?N = "new_secondary now ?d (id_c fp) s"
    have np': "filter (\<lambda>c. linkPrecedence c = PRIMARY) ?m = []" using np by (simp add: primaries_def)
    have ids0: "linkedIds_of ?m \<noteq> []" and ff: "findFirst_primary (linkedIds_of ?m) s = Some fp"
      using fp by (auto simp: findPrimaryContact_secondaries[OF np'] split: if_splits option.splits)
    have fpin: "id_c fp \<in> set (linkedIds_of ?m)" using findFirst_primary_Some[OF ff] by simp
    have setA: "set (matching_of data sA) = insert ?N (set ?m)"
      using new_secondary_matches[OF tr] by (auto simp: set_matching_of sA)
    have "set (linkedIds_of (matching_of data sA)) = insert (id_c fp) (set (linkedIds_of ?m))"
      by (auto simp: set_linkedIds_of setA new_secondary_def)
    then have sl: "set (linkedIds_of (matching_of data sA)) = set (linkedIds_of ?m)"
      using fpin by auto
    then have idsA: "linkedIds_of (matching_of data sA) \<noteq> []" using ids0 by auto
    have npA: "filter (\<lambda>c. linkPrecedence c = PRIMARY) (matching_of data sA) = []"
      using primaries_after_link_step[OF ls] np by (simp add: primaries_def)
    have "findFirst_primary (linkedIds_of (matching_of data sA)) sA =
          findFirst_primary (linkedIds_of ?m) sA"
      using sl by (rule findFirst_primary_cong)
    then show ?thesis
      using ids0 idsA by (simp add: findPrimaryContact_secondaries[OF np']
          findPrimaryContact_secondaries[OF npA])
  qed
qed


lemma formatResponse_no_primary:
  "\<not> list_ex (\<lambda>c. linkPrecedence c = PRIMARY) cs \<Longrightarrow> formatResponse cs = Inl NoPrimaryInChain"
proof -
  assume "\<not> list_ex (\<lambda>c. linkPrecedence c = PRIMARY) cs"
  then have "find (\<lambda>c. linkPrecedence c = PRIMARY) cs = None"
    by (simp add: find_None_iff list_ex_iff)
  then show ?thesis by (simp add: formatResponse_eq)
qed

text \<open>After a merge the chain read under the id of a demoted contact holds no primary
  contact: the contact itself is secondary and no live row is linked to it any more.\<close>

lemma chain_of_absorbed:
  assumes "x \<in> set A" and "t \<notin> set A"
    and st: "set (rows s') = absorb A t ` set (rows s)"
  shows "\<not> list_ex (\<lambda>c. linkPrecedence c = PRIMARY) (chain_rows x s')"
proof -
  have "linkPrecedence (absorb A t c) \<noteq> PRIMARY"
    if "(id_c (absorb A t c) = x \<or> linkedId (absorb A t c) = Some x) \<and> deletedAt (absorb A t c) = None"
    for c
  proof (cases "id_c c \<in> set A")
    case True
    then show ?thesis by (simp add: absorb_def)
  next
    case False
    then have lk: "linkedId (absorb A t c) = Some x" and live: "deletedAt c = None"
      using that assms(1) by auto
    show ?thesis
    proof (cases "links_into A c")
      case True
      then have "linkedId (absorb A t c) = Some t" using False live by (simp add: absorb_def)
      then show ?thesis using lk assms by auto
    next
      case nl: False
      then have "absorb A t c = c" using False by (simp add: absorb_def)
      then have "links_into A c" using lk assms(1) by (simp add: links_into_def)
      then show ?thesis using nl by simp
    qed
  qed
  then show ?thesis by (auto simp: chain_rows_def list_ex_iff st)
qed

lemma respond_cong:
  "getAllContactsInChain m s = getAllContactsInChain m' s \<Longrightarrow> respond m s = respond m' s"
  by (simp add: respond_def)

lemma identify_twice_linked:
  assumes wf: "wf_store s"
    and ne: "matching_of data s \<noteq> []"
    and ls: "link_step now (matching_of data s) (sanitizeInput data) s = Inr sA"
    and ok: "fst (identify now data s) \<noteq> Inl NoPrimaryInChain"
  shows "identify now' data (snd (identify now data s)) =
           (fst (identify now data s), snd (identify now data s))"
proof -
  let ?d = "sanitizeInput data"
  let ?em = "email_r ?d" and ?ph = "phoneNumber_r ?d"
  let ?m0 = "matching_of data s"
  let ?mA = "matching_of data sA"
  let ?A = "absorbed_ids ?m0" and ?t = "survivor_id ?m0"
  let ?g = "absorb ?A ?t"
  let ?sB = "merge_step ?m0 sA"
  let ?m1 = "matching_of data ?sB"
  have r: "identify now data s = respond ?m0 ?sB"
    using ne ls by (simp add: identify_steps processExistingContacts_steps)
  have srt: "sorted (map createdAt ?m0)" by (rule sorted_matching_of)
  have msB: "mset (rows ?sB) = image_mset ?g (mset (rows sA))" by (rule merge_step_mset[OF srt])
  have mm1: "mset ?m1 = image_mset ?g (mset ?mA)" using msB by (rule mset_matching_of_absorb)
  have "set_mset (mset ?m1) = set_mset (image_mset ?g (mset ?mA))" by (simp only: mm1)
  then have sm1: "set ?m1 = ?g ` set ?mA" by simp
  have neA: "?mA \<noteq> []" by (rule matching_after_link_step_nonempty[OF ne ls])
  then have ne1: "?m1 \<noteq> []" using sm1 by auto
  have "shouldCreateNewContact ?m1 ?em ?ph = shouldCreateNewContact ?mA ?em ?ph"
    using sm1 by (rule shouldCreate_image) simp_all
  then have "\<not> shouldCreateNewContact ?m1 ?em ?ph"
    using no_create_after_link_step[OF ne ls] by simp
  then have ls1: "link_step now' ?m1 ?d ?sB = Inr ?sB" by (simp add: link_step_eq)
  have p1: "mset (primaries ?m1) =
            image_mset ?g (mset (filter (\<lambda>c. id_c c \<notin> set ?A) (primaries ?m0)))"
    using mset_primaries_absorb[OF mm1] by (simp only: primaries_after_link_step[OF ls])
  have dist: "distinct (map id_c ?m0)" using wf by (rule distinct_ids_matching_of)
  have same: "getAllContactsInChain ?m1 ?sB = getAllContactsInChain ?m0 ?sB \<and> length (primaries ?m1) \<le> 1"
  proof (cases "primaries ?m0")
    case Nil
    then have sB: "?sB = sA" by (simp add: merge_step_single)
    have "findPrimaryContact ?mA sA = findPrimaryContact ?m0 sA"
      using ne ls Nil by (rule findPrimaryContact_after_link_step)
    then show ?thesis
      using Nil by (simp add: sB getAllContactsInChain_def primaries_after_link_step[OF ls])
  next
    case (Cons p ps)
    note f = primaries_Cons_facts[OF Cons dist]
    have dps: "distinct (map id_c (p # ps))"
      using dist Cons by (metis distinct_map_filter primaries_def)
    have "filter (\<lambda>c. id_c c \<notin> set ?A) (primaries ?m0) = [p]"
      using filter_not_absorbed[OF dps] by (simp only: Cons f(5))
    then have "mset (primaries ?m1) = {#?g p#}"
      by (simp only: p1) simp
    then have one: "primaries ?m1 = [?g p]" by (simp only: mset_single_iff)
    then have fp1: "findPrimaryContact ?m1 ?sB = Inr (?g p)"
      by (simp add: findPrimaryContact_def primaries_def)
    let ?X = "foldl older p ps"
    have fp0: "findPrimaryContact ?m0 ?sB = Inr ?X"
      using Cons by (simp add: findPrimaryContact_primaries primaries_def)
    have "id_c ?X = id_c p"
    proof (rule ccontr)
      assume neq: "id_c ?X \<noteq> id_c p"
      have "?X \<in> set (p # ps)" by (rule foldl_older_in)
      then have "?X \<in> set ps" using neq by auto
      then have "id_c ?X \<in> set ?A" by (simp add: f(5))
      moreover have "?t \<notin> set ?A" using f(3) by (simp add: f(4,5))
      moreover have "set (rows ?sB) = ?g ` set (rows sA)" by (rule merge_step_set[OF srt])
      ultimately have "\<not> list_ex (\<lambda>c. linkPrecedence c = PRIMARY) (chain_rows (id_c ?X) ?sB)"
        by (rule chain_of_absorbed)
      then have "formatResponse (chain_rows (id_c ?X) ?sB) = Inl NoPrimaryInChain"
        by (rule formatResponse_no_primary)
      then have "fst (respond ?m0 ?sB) = Inl NoPrimaryInChain"
        by (simp add: respond_def getAllContactsInChain_def fp0)
      then show False using ok r by simp
    qed
    then show ?thesis
      by (simp add: getAllContactsInChain_def fp0 fp1 one)
  qed
  then have "merge_step ?m1 ?sB = ?sB" by (simp add: merge_step_single)
  then have "identify now' data ?sB = respond ?m1 ?sB"
    using ne1 ls1 by (simp add: identify_steps processExistingContacts_steps)
  also have "\<dots> = respond ?m0 ?sB" using same by (intro respond_cong) simp
  finally have eq: "identify now' data ?sB = respond ?m0 ?sB" .
  show ?thesis unfolding r by (rule prod_eqI) (simp_all add: eq)
qed

lemma known_combination_no_row:
  assumes rep: "list_ex (\<lambda>c. deletedAt c = None \<and> email c = email_r (sanitizeInput data) \<and>
                        phoneNumber c = phoneNumber_r (sanitizeInput data)) (rows s)"
    and ne: "truthy (email_r (sanitizeInput data)) \<or> truthy (phoneNumber_r (sanitizeInput data))"
  shows "length (rows (snd (identify now data s))) = length (rows s)"
proof -
  let ?d = "sanitizeInput data"
  let ?m = "matching_of data s"
  obtain c where c: "c \<in> set (rows s)" "deletedAt c = None" "email c = email_r ?d"
      "phoneNumber c = phoneNumber_r ?d"
    using rep by (auto simp: list_ex_iff)
  have "matches (email_r ?d) (phoneNumber_r ?d) c" using c ne by (auto simp: matches_def)
  then have cm: "c \<in> set ?m" using c(1) by (simp add: set_matching_of)
  then have m: "?m \<noteq> []" by auto
  have "\<not> shouldCreateNewContact ?m (email_r ?d) (phoneNumber_r ?d)"
    using cm c(3,4) ne by (intro shouldCreate_exact[of c]) simp_all
  then have "link_step now ?m ?d s = Inr s" by (simp add: link_step_eq)
  then show ?thesis using m by (simp add: snd_identify merge_step_length sorted_matching_of)
qed

lemma identify_bridge_again:
  "identify 400 bridge one_chain =
     (Inr \<lparr>primaryContactId = 1,
           emails = [''george@hillvalley.edu'', ''biffsucks@hillvalley.edu''],
           phoneNumbers = [''919191'', ''717171''], secondaryContactIds = [2, 3]\<rparr>,
      one_chain)"
  by code_simp

lemma identify_twin_bridge_again:
  "fst (identify 70 twin_bridge (snd (identify 60 twin_bridge twins))) =
     Inr \<lparr>primaryContactId = 1, emails = [''a@x.io'', ''b@x.io''],
          phoneNumbers = [''111'', ''222''], secondaryContactIds = [2, 3]\<rparr>"
  by code_simp

subsection \<open>The decision and the rows of the store\<close>

lemma shouldCreate_is_policy:
  "shouldCreateNewContact matching em ph = new_record_policy matching em ph"
  by (cases em; cases ph)
     (auto simp: shouldCreateNewContact_def new_record_policy_def supplied_def list_ex_iff
                 strict_eq_def split: option.splits)

lemma findPrimaryContact_resolves:
  assumes "m \<noteq> []" and "\<not> orphaned_secondaries m s"
  shows "\<exists>fp. findPrimaryContact m s = Inr fp"
proof (cases "filter (\<lambda>c. linkPrecedence c = PRIMARY) m")
  case (Cons p ps)
  then show ?thesis by (simp add: findPrimaryContact_primaries)
next
  case Nil
  then have "list_all (\<lambda>c. linkPrecedence c = SECONDARY) m" by (simp add: filter_primary_Nil_iff)
  then have "findFirst_primary (linkedIds_of m) s \<noteq> None"
    using assms by (simp add: orphaned_secondaries_def findFirst_primary_None)
  then obtain p where p: "findFirst_primary (linkedIds_of m) s = Some p" by auto
  then have "linkedIds_of m \<noteq> []" using findFirst_primary_Some[OF p] by auto
  then show ?thesis using p by (simp add: findPrimaryContact_secondaries[OF Nil])
qed

lemma shouldCreate_Nil:
  "truthy em \<or> truthy ph \<Longrightarrow> shouldCreateNewContact [] em ph"
  by (auto simp: shouldCreateNewContact_def)

lemma rows_after_identify:
  assumes "truthy (email_r (sanitizeInput data)) \<or> truthy (phoneNumber_r (sanitizeInput data))"
    and "\<not> orphaned_secondaries (matching_of data s) s"
  shows "length (rows (snd (identify now data s))) =
           length (rows s) +
           (if shouldCreateNewContact (matching_of data s) (email_r (sanitizeInput data))
                 (phoneNumber_r (sanitizeInput data)) then 1 else 0)"
proof (cases "matching_of data s = []")
  case True
  then show ?thesis using assms(1) by (simp add: snd_identify shouldCreate_Nil)
next
  case False
  obtain fp where "findPrimaryContact (matching_of data s) s = Inr fp"
    using findPrimaryContact_resolves[OF False assms(2)] by blast
  then show ?thesis
    using False by (simp add: snd_identify link_step_eq merge_step_length sorted_matching_of)
qed

text \<open>The normal form of an email and of a phone number.\<close>

lemma not_capital_lower_char [simp]: "\<not> is_capital (lower_char c)"
  by (auto simp: lower_char_def is_capital_def Let_def)

lemma lower_char_idem [simp]: "lower_char (lower_char c) = lower_char c"
  using not_capital_lower_char[of c] by (simp add: lower_char_def[of "lower_char c"])








subsection \<open>The invariants along a request\<close>

lemma link_step_facts:
  assumes wf: "wf_store s"
    and ls: "link_step now (matching_of data s) (sanitizeInput data) s = Inr s1"
  shows "wf_store s1" "set (rows s) \<subseteq> set (rows s1)"
    "chain_inv s \<Longrightarrow> chain_inv s1"
    "list_all (in_one_chain (rows s)) (rows s) \<Longrightarrow> list_all (in_one_chain (rows s1)) (rows s1)"
proof -
  let ?m = "matching_of data s"
  let ?d = "sanitizeInput data"
  have sub: "\<And>c. c \<in> set ?m \<Longrightarrow> c \<in> set (rows s) \<and> deletedAt c = None"
    by (rule matching_of_subset)
  show "wf_store s1" "set (rows s) \<subseteq> set (rows s1)"
    using wf_store_link_step[OF wf ls sub] by simp_all
  from link_step_Inr_cases[OF ls]
  have "s1 = s \<or> (\<exists>fp. findPrimaryContact ?m s = Inr fp \<and> s1 = add_row (new_secondary now ?d (id_c fp) s) s)"
    by blast
  then have c: "s1 = s \<or> (\<exists>fp. fp \<in> set (rows s) \<and> linkPrecedence fp = PRIMARY \<and> deletedAt fp = None \<and>
                              s1 = add_row (new_secondary now ?d (id_c fp) s) s)"
    using findPrimaryContact_in[OF _ sub] by blast
  show "chain_inv s1" if "chain_inv s"
    using c that by (auto intro: chain_inv_add_secondary)
  show "list_all (in_one_chain (rows s1)) (rows s1)" if "list_all (in_one_chain (rows s)) (rows s)"
    using c that by (auto intro: in_one_chain_add_secondary)
qed

lemma identify_preserves_rows:
  assumes wf: "wf_store s"
  shows "wf_store (snd (identify now data s))"
    "chain_inv s \<Longrightarrow> chain_inv (snd (identify now data s))"
    "list_all (in_one_chain (rows s)) (rows s) \<Longrightarrow>
     list_all (in_one_chain (rows (snd (identify now data s)))) (rows (snd (identify now data s)))"
proof -
  let ?m = "matching_of data s"
  let ?d = "sanitizeInput data"
  let ?s' = "snd (identify now data s)"
  have srt: "sorted (map createdAt ?m)" by (rule sorted_matching_of)
  have dist: "distinct (map id_c ?m)" using wf by (rule distinct_ids_matching_of)
  have sub: "\<And>c. c \<in> set ?m \<Longrightarrow> c \<in> set (rows s) \<and> deletedAt c = None"
    by (rule matching_of_subset)
  have "wf_store ?s' \<and> (chain_inv s \<longrightarrow> chain_inv ?s') \<and>
        (list_all (in_one_chain (rows s)) (rows s) \<longrightarrow> list_all (in_one_chain (rows ?s')) (rows ?s'))"
  proof (cases "?m = []")
    case True
    have fin: "?s' = add_row (new_primary now ?d s) s" using True by (simp add: snd_identify)
    have "wf_store (add_row (new_primary now ?d s) s)"
      using wf by (intro wf_store_add_row) (simp_all add: new_primary_def link_below_def)
    moreover have "chain_inv (add_row (new_primary now ?d s) s)" if "chain_inv s"
      using that by (rule chain_inv_add_primary)
    moreover have "list_all (in_one_chain (rows (add_row (new_primary now ?d s) s)))
                     (rows (add_row (new_primary now ?d s) s))"
      if "list_all (in_one_chain (rows s)) (rows s)"
      using that wf by (rule in_one_chain_add_primary)
    ultimately show ?thesis by (simp only: fin) blast
  next
    case False
    show ?thesis
    proof (cases "link_step now ?m ?d s")
      case (Inl e)
      then show ?thesis using False wf by (simp add: snd_identify)
    next
      case (Inr s1)
      note s1 = link_step_facts[OF wf Inr]
      have sub1: "\<And>c. c \<in> set ?m \<Longrightarrow> c \<in> set (rows s1) \<and> deletedAt c = None"
        using sub s1(2) by blast
      have fin: "?s' = merge_step ?m s1" using False Inr by (simp add: snd_identify)
      have "wf_store (merge_step ?m s1)"
        using s1(1) srt sub1 by (intro wf_store_merge_step) simp_all
      moreover have "chain_inv (merge_step ?m s1)" if "chain_inv s"
        using s1(3)[OF that] srt dist sub1 by (intro chain_inv_merge_step) simp_all
      moreover have "list_all (in_one_chain (rows (merge_step ?m s1))) (rows (merge_step ?m s1))"
        if "list_all (in_one_chain (rows s)) (rows s)"
        using s1(4)[OF that] srt dist sub1 by (intro in_one_chain_merge_step) simp_all
      ultimately show ?thesis by (simp only: fin) blast
    qed
  qed
  then show "wf_store ?s'" "chain_inv s \<Longrightarrow> chain_inv ?s'"
    "list_all (in_one_chain (rows s)) (rows s) \<Longrightarrow> list_all (in_one_chain (rows ?s')) (rows ?s')"
    by blast+
qed

section \<open>The claims\<close>

text \<open>
  Claim C1, amended. In a well-formed store, when the matching set of a request holds more
  than one primary contact, the one that stays primary is the first of them in the order
  of the matching query: no other one was created before it, and among those created at
  the same time the order of the query decides, no id being compared. After the request
  that contact is primary, every other matched primary contact is secondary and linked to
  it, and every live contact that was linked to one of them is linked to it.
\<close>

theorem merge_survivor:
  assumes wf: "wf_store s"
    and ps: "primaries (matching_of data s) = p # q # qs"
  shows "(\<forall>x \<in> set (q # qs). createdAt p \<le> createdAt x) \<and>
         (\<exists>c. contact_by_id (id_c p) (snd (identify now data s)) = Some c \<and>
              linkPrecedence c = PRIMARY) \<and>
         (\<forall>x \<in> set (q # qs).
            \<exists>c. contact_by_id (id_c x) (snd (identify now data s)) = Some c \<and>
                linkPrecedence c = SECONDARY \<and> linkedId c = Some (id_c p)) \<and>
         (\<forall>c \<in> set (rows s).
            deletedAt c = None \<and> links_into (map id_c (q # qs)) c \<longrightarrow>
            (\<exists>c'. contact_by_id (id_c c) (snd (identify now data s)) = Some c' \<and>
                 linkedId c' = Some (id_c p)))"
proof -
  let ?m = "matching_of data s"
  let ?s' = "snd (identify now data s)"
  let ?A = "map id_c (q # qs)"
  have ne: "?m \<noteq> []" using ps by (auto simp: primaries_def)
  have srt: "sorted (map createdAt ?m)" by (rule sorted_matching_of)
  have sub: "\<And>c. c \<in> set ?m \<Longrightarrow> c \<in> set (rows s) \<and> deletedAt c = None"
    by (rule matching_of_subset)
  have dist: "distinct (map id_c ?m)" using wf by (rule distinct_ids_matching_of)
  note f = primaries_Cons_facts[OF ps dist]
  obtain s1 where ls: "link_step now ?m (sanitizeInput data) s = Inr s1"
    using link_step_primaries[OF ps] by blast
  have s1: "wf_store s1" "set (rows s) \<subseteq> set (rows s1)"
    using wf_store_link_step[OF wf ls sub] by simp_all
  have d1: "distinct (map id_c (rows s1))" using s1(1) by (rule wf_store_distinct)
  have fin: "?s' = merge_step ?m s1" using ne ls by (simp add: snd_identify)
  have look: "contact_by_id (id_c x) ?s' = Some (absorb ?A (id_c p) x)" if "x \<in> set (rows s)" for x
  proof -
    have "x \<in> set (rows s1)" using that s1(2) by auto
    then show ?thesis
      using contact_by_id_merge_step[OF d1 srt] by (simp add: fin f(4,5))
  qed
  have inm: "\<And>x. x \<in> set (p # q # qs) \<Longrightarrow> x \<in> set (rows s)"
  proof -
    fix x assume "x \<in> set (p # q # qs)"
    then have "x \<in> set (primaries ?m)" using ps by simp
    then show "x \<in> set (rows s)" using sub by (simp add: primaries_def)
  qed
  have "sorted (map createdAt (p # q # qs))"
    using sorted_primaries[OF srt] by (simp only: ps)
  then have c1: "\<forall>x \<in> set (q # qs). createdAt p \<le> createdAt x" by auto
  have "linkPrecedence (absorb ?A (id_c p) p) = PRIMARY"
    using f(2,3) by (simp add: absorb_def)
  then have c2: "\<exists>c. contact_by_id (id_c p) ?s' = Some c \<and> linkPrecedence c = PRIMARY"
    using look[of p] inm[of p] by simp
  have c3: "\<forall>x \<in> set (q # qs). \<exists>c. contact_by_id (id_c x) ?s' = Some c \<and>
                linkPrecedence c = SECONDARY \<and> linkedId c = Some (id_c p)"
  proof
    fix x assume x: "x \<in> set (q # qs)"
    then have "id_c x \<in> set ?A" by (metis image_eqI set_map)
    then have "linkPrecedence (absorb ?A (id_c p) x) = SECONDARY"
      "linkedId (absorb ?A (id_c p) x) = Some (id_c p)"
      by (simp_all add: absorb_def)
    then show "\<exists>c. contact_by_id (id_c x) ?s' = Some c \<and>
                linkPrecedence c = SECONDARY \<and> linkedId c = Some (id_c p)"
      using look[of x] inm[of x] x by simp
  qed
  have c4: "\<forall>c \<in> set (rows s). deletedAt c = None \<and> links_into ?A c \<longrightarrow>
            (\<exists>c'. contact_by_id (id_c c) ?s' = Some c' \<and> linkedId c' = Some (id_c p))"
  proof (intro ballI impI)
    fix c assume c: "c \<in> set (rows s)" and l: "deletedAt c = None \<and> links_into ?A c"
    then have "linkedId (absorb ?A (id_c p) c) = Some (id_c p)"
      by (simp add: absorb_def)
    then show "\<exists>c'. contact_by_id (id_c c) ?s' = Some c' \<and> linkedId c' = Some (id_c p)"
      using look[OF c] by simp
  qed
  show ?thesis using c1 c2 c3 c4 by blast
qed

text \<open>An instance on the example stores.\<close>

theorem merge_survivor_witness:
  "wf_store four_rows \<and> primaries (matching_of bridge four_rows) = george # biff # [] \<and>
   createdAt george \<le> createdAt biff \<and>
   (\<exists>c. contact_by_id (id_c george) (snd (identify 300 bridge four_rows)) = Some c \<and>
        linkPrecedence c = PRIMARY) \<and>
   (\<exists>c. contact_by_id (id_c biff) (snd (identify 300 bridge four_rows)) = Some c \<and>
        linkPrecedence c = SECONDARY \<and> linkedId c = Some (id_c george)) \<and>
   marty \<in> set (rows four_rows) \<and> deletedAt marty = None \<and> links_into (map id_c (biff # [])) marty \<and>
   (\<exists>c'. contact_by_id (id_c marty) (snd (identify 300 bridge four_rows)) = Some c' \<and>
         linkedId c' = Some (id_c george))"
proof -
  have wf: "wf_store four_rows" by code_simp
  have ps: "primaries (matching_of bridge four_rows) = george # biff # []" by code_simp
  have m: "marty \<in> set (rows four_rows)" by (simp add: four_rows_def)
  have l: "deletedAt marty = None" "links_into (map id_c (biff # [])) marty" by code_simp+
  have b: "biff \<in> set (biff # [])" by simp
  show ?thesis using merge_survivor[OF wf ps, of 300] wf ps m l b by blast
qed

text \<open>
  The statement of the claim fails in two ways. Of two primary contacts created in the
  same millisecond and matched in the order id 2, id 1, the contact with id 2 stays
  primary and the one with the smaller id is demoted: the tie is not broken by the id.
  And a soft-deleted contact that was linked to a demoted primary contact keeps its link,
  since \<open>updateMany\<close> re-points live rows only: not every contact is re-pointed.
\<close>

theorem merge_survivor_counterexample:
  "wf_store twins_rev \<and> chain_inv twins_rev \<and>
   primaries (matching_of twin_bridge twins_rev) = [twin_b, twin_a] \<and>
   createdAt twin_a = createdAt twin_b \<and> id_c twin_a < id_c twin_b \<and>
   contact_by_id (id_c twin_b) (snd (identify 60 twin_bridge twins_rev)) = Some twin_b \<and>
   linkPrecedence twin_b = PRIMARY \<and>
   contact_by_id (id_c twin_a) (snd (identify 60 twin_bridge twins_rev)) =
     Some (twin_a\<lparr>linkPrecedence := SECONDARY, linkedId := Some (id_c twin_b)\<rparr>) \<and>
   wf_store four_rows \<and> chain_inv four_rows \<and>
   primaries (matching_of bridge four_rows) = [george, biff] \<and>
   lorraine \<in> set (rows four_rows) \<and> linkedId lorraine = Some (id_c biff) \<and>
   contact_by_id (id_c lorraine) (snd (identify 300 bridge four_rows)) = Some lorraine \<and>
   linkedId lorraine \<noteq> Some (id_c george)"
proof -
  have "wf_store twins_rev" "chain_inv twins_rev"
    "primaries (matching_of twin_bridge twins_rev) = [twin_b, twin_a]"
    "createdAt twin_a = createdAt twin_b" "id_c twin_a < id_c twin_b"
    "linkPrecedence twin_b = PRIMARY" by code_simp+
  moreover have "contact_by_id (id_c twin_b) (snd (identify 60 twin_bridge twins_rev)) = Some twin_b"
    by code_simp
  moreover have "contact_by_id (id_c twin_a) (snd (identify 60 twin_bridge twins_rev)) =
     Some (twin_a\<lparr>linkPrecedence := SECONDARY, linkedId := Some (id_c twin_b)\<rparr>)"
    by code_simp
  moreover have "wf_store four_rows" "chain_inv four_rows"
    "primaries (matching_of bridge four_rows) = [george, biff]" by code_simp+
  moreover have "lorraine \<in> set (rows four_rows)" by (simp add: four_rows_def)
  moreover have "linkedId lorraine = Some (id_c biff)" "linkedId lorraine \<noteq> Some (id_c george)"
    by code_simp+
  moreover have "contact_by_id (id_c lorraine) (snd (identify 300 bridge four_rows)) = Some lorraine"
    unfolding identify_bridge_four_rows by code_simp
  ultimately show ?thesis by blast
qed

text \<open>
  Claim C2. Among primary contacts of equal creation time \<open>findPrimaryContact\<close> does
  not return the one with the smallest id: the callback of its \<open>reduce\<close> gives up the
  accumulator on a tie, so of the two contacts below, read in the order of the matching
  query, it returns the second, while \<open>mergePrimaryContacts\<close> keeps the first.
\<close>

theorem findPrimaryContact_tie:
  "createdAt twin_a = createdAt twin_b \<and> id_c twin_a < id_c twin_b \<and>
   matching_of twin_bridge twins = [twin_a, twin_b] \<and>
   findPrimaryContact [twin_a, twin_b] twins = Inr twin_b"
  by code_simp

text \<open>
  Claim C3, amended. The decision of \<open>shouldCreateNewContact\<close> is the policy of the
  specification, for every list of matched contacts and every pair of request fields: no
  record when a matched contact has exactly the request's email and phone number (both
  absent included), otherwise a record when both are supplied, and with one field
  supplied a record exactly when no matched contact has that value. And a request that
  supplies a field after sanitizing, and whose matching set is not one of secondary
  contacts without a live primary contact, adds one row to the store when the policy asks
  for a record, and none otherwise; this holds of the empty matching set as well.
\<close>

theorem shouldCreateNewContact_policy:
  "shouldCreateNewContact matching em ph = new_record_policy matching em ph \<and>
   ((supplied (email_r (sanitizeInput data)) \<or> supplied (phoneNumber_r (sanitizeInput data))) \<and>
    \<not> orphaned_secondaries (matching_of data s) s \<longrightarrow>
    length (rows (snd (identify now data s))) =
      length (rows s) +
      (if new_record_policy (matching_of data s) (email_r (sanitizeInput data))
            (phoneNumber_r (sanitizeInput data)) then 1 else 0))"
proof -
  have "supplied x = truthy x" for x by (cases x) (simp_all add: supplied_def)
  then show ?thesis
    using rows_after_identify[of data s now] by (simp add: shouldCreate_is_policy)
qed

text \<open>An instance on the example stores, with a matching set of two contacts and with none.\<close>

theorem shouldCreateNewContact_policy_witness:
  "shouldCreateNewContact [george, biff] (Some ''george@hillvalley.edu'') (Some ''717171'') \<and>
   new_record_policy [george, biff] (Some ''george@hillvalley.edu'') (Some ''717171'') \<and>
   supplied (email_r (sanitizeInput bridge)) \<and>
   matching_of bridge two_chains = [george, biff] \<and>
   \<not> orphaned_secondaries (matching_of bridge two_chains) two_chains \<and>
   new_record_policy (matching_of bridge two_chains) (email_r (sanitizeInput bridge))
     (phoneNumber_r (sanitizeInput bridge)) \<and>
   length (rows (snd (identify 300 bridge two_chains))) = length (rows two_chains) + 1 \<and>
   matching_of bridge empty_store = [] \<and>
   \<not> orphaned_secondaries (matching_of bridge empty_store) empty_store \<and>
   new_record_policy (matching_of bridge empty_store) (email_r (sanitizeInput bridge))
     (phoneNumber_r (sanitizeInput bridge)) \<and>
   length (rows (snd (identify 300 bridge empty_store))) = length (rows empty_store) + 1"
proof -
  have p: "new_record_policy [george, biff] (Some ''george@hillvalley.edu'') (Some ''717171'')"
    by code_simp
  have su: "supplied (email_r (sanitizeInput bridge))" by code_simp
  have m: "matching_of bridge two_chains = [george, biff]" by code_simp
  have o: "\<not> orphaned_secondaries (matching_of bridge two_chains) two_chains" by code_simp
  have q: "new_record_policy (matching_of bridge two_chains) (email_r (sanitizeInput bridge))
     (phoneNumber_r (sanitizeInput bridge))" by code_simp
  have m': "matching_of bridge empty_store = []" by code_simp
  have o': "\<not> orphaned_secondaries (matching_of bridge empty_store) empty_store" by code_simp
  have q': "new_record_policy (matching_of bridge empty_store) (email_r (sanitizeInput bridge))
     (phoneNumber_r (sanitizeInput bridge))" by code_simp
  show ?thesis
    using shouldCreateNewContact_policy[of "[george, biff]" "Some ''george@hillvalley.edu''"
        "Some ''717171''" bridge two_chains 300]
      shouldCreateNewContact_policy[of "[george, biff]" "Some ''george@hillvalley.edu''"
        "Some ''717171''" bridge empty_store 300]
      p su m o q m' o' q'
    by simp
qed

text \<open>
  The statement of the claim fails in two ways. The matching set of a secondary contact
  whose link names no contact: the policy asks for a record, both fields being supplied
  and the email new, and the request fails before it creates one. And a request without
  fields, whose matching set is empty: the policy asks for no record, and the request
  creates a primary contact.
\<close>

theorem shouldCreateNewContact_policy_counterexample:
  "matching_of new_email orphaned = [strickland] \<and>
   new_record_policy [strickland] (email_r (sanitizeInput new_email))
     (phoneNumber_r (sanitizeInput new_email)) \<and>
   identify 60 new_email orphaned = (Inl NoPrimaryContactFound, orphaned) \<and>
   matching_of no_fields two_chains = [] \<and>
   \<not> new_record_policy [] (email_r (sanitizeInput no_fields)) (phoneNumber_r (sanitizeInput no_fields)) \<and>
   length (rows (snd (identify 300 no_fields two_chains))) = length (rows two_chains) + 1"
proof -
  have "matching_of new_email orphaned = [strickland]" by code_simp
  moreover have "new_record_policy [strickland] (email_r (sanitizeInput new_email))
     (phoneNumber_r (sanitizeInput new_email))" by code_simp
  moreover have "identify 60 new_email orphaned = (Inl NoPrimaryContactFound, orphaned)"
    by code_simp
  moreover have "matching_of no_fields two_chains = []" by code_simp
  moreover have "\<not> new_record_policy [] (email_r (sanitizeInput no_fields))
     (phoneNumber_r (sanitizeInput no_fields))" by code_simp
  moreover have "length (rows (snd (identify 300 no_fields two_chains))) = length (rows two_chains) + 1"
    by code_simp
  ultimately show ?thesis by blast
qed

text \<open>
  Claim C4. From a well-formed store in which every live contact is a primary contact or
  is linked to a live primary contact, and in which the chain of every live primary
  contact has that contact as its only primary member, every other member being a
  secondary contact whose link is the id of that contact, every request leaves a store of
  the same kind, whether it answers or fails: no secondary contact points at a secondary
  contact, no chain has two primary contacts. If moreover no live primary contact carries
  a link, as the data model has it, this is so after the request as well.
\<close>

theorem identify_preserves_chain_inv:
  assumes wf: "wf_store s" and inv: "one_primary_per_chain s"
  shows "wf_store (snd (identify now data s)) \<and>
         one_primary_per_chain (snd (identify now data s)) \<and>
         (chain_inv s \<longrightarrow> chain_inv (snd (identify now data s)))"
proof -
  note p = identify_preserves_rows[OF wf, of now data]
  have "list_all (in_one_chain (rows s)) (rows s)"
    using inv by (simp add: one_primary_per_chain_iff[OF wf_store_distinct[OF wf]])
  then have "list_all (in_one_chain (rows (snd (identify now data s))))
               (rows (snd (identify now data s)))"
    by (rule p(3))
  then have "one_primary_per_chain (snd (identify now data s))"
    by (simp add: one_primary_per_chain_iff[OF wf_store_distinct[OF p(1)]])
  then show ?thesis using p(1,2) by blast
qed

text \<open>An instance on the example stores.\<close>

theorem identify_preserves_chain_inv_witness:
  "wf_store four_rows \<and> one_primary_per_chain four_rows \<and> chain_inv four_rows \<and>
   wf_store (snd (identify 300 bridge four_rows)) \<and>
   one_primary_per_chain (snd (identify 300 bridge four_rows)) \<and>
   chain_inv (snd (identify 300 bridge four_rows))"
proof -
  have wf: "wf_store four_rows" by code_simp
  have opc: "one_primary_per_chain four_rows" by code_simp
  have inv: "chain_inv four_rows" by code_simp
  show ?thesis
    using identify_preserves_chain_inv[OF wf opc, of 300 bridge] wf opc inv by blast
qed

text \<open>
  Claim C5, amended. The chain read for the response comes ordered by creation time. When
  it holds one primary contact, the response names that contact's id, lists the unique
  non-empty emails of all members in the order of the chain, the phone numbers likewise,
  and the ids of all secondary contacts in ascending order. The primary contact is the
  first member of the chain as read when it was created before every other member, and
  then its email and its phone number come first.
\<close>

theorem formatResponse_chain:
  assumes "getAllContactsInChain m s = Inr cs"
    and "primaries cs = [p]"
  shows "sorted (map createdAt cs) \<and>
         formatResponse cs =
           Inr \<lparr>primaryContactId = id_c p,
                emails = unique_values (map email cs),
                phoneNumbers = unique_values (map phoneNumber cs),
                secondaryContactIds =
                  sort (map id_c (filter (\<lambda>c. linkPrecedence c = SECONDARY) cs))\<rparr> \<and>
         ((\<forall>c \<in> set cs. c \<noteq> p \<longrightarrow> createdAt p < createdAt c) \<longrightarrow> (\<exists>ss. cs = p # ss)) \<and>
         (\<forall>ss. cs = p # ss \<longrightarrow>
            (\<forall>e. email p = Some e \<and> e \<noteq> [] \<longrightarrow>
                 (\<exists>es. unique_values (map email cs) = e # es)) \<and>
            (\<forall>n. phoneNumber p = Some n \<and> n \<noteq> [] \<longrightarrow>
                 (\<exists>ns. unique_values (map phoneNumber cs) = n # ns)))"
proof -
  have srt: "sorted (map createdAt cs)"
    using assms(1) by (rule getAllContactsInChain_sorted)
  have "filter (\<lambda>c. linkPrecedence c = PRIMARY) cs = p # []"
    using assms(2) by (simp add: primaries_def)
  then have "find (\<lambda>c. linkPrecedence c = PRIMARY) cs = Some p" by (rule find_filter_Cons)
  then have fr: "formatResponse cs =
           Inr \<lparr>primaryContactId = id_c p,
                emails = unique_values (map email cs),
                phoneNumbers = unique_values (map phoneNumber cs),
                secondaryContactIds =
                  sort (map id_c (filter (\<lambda>c. linkPrecedence c = SECONDARY) cs))\<rparr>"
    by (simp add: formatResponse_eq)
  have "\<forall>ss. cs = p # ss \<longrightarrow>
            (\<forall>e. email p = Some e \<and> e \<noteq> [] \<longrightarrow>
                 (\<exists>es. unique_values (map email cs) = e # es)) \<and>
            (\<forall>n. phoneNumber p = Some n \<and> n \<noteq> [] \<longrightarrow>
                 (\<exists>ns. unique_values (map phoneNumber cs) = n # ns))"
    by (auto simp: unique_values_def)
  moreover have "\<exists>ss. cs = p # ss" if first: "\<forall>c \<in> set cs. c \<noteq> p \<longrightarrow> createdAt p < createdAt c"
  proof -
    have "p \<in> set (primaries cs)" using assms(2) by simp
    then have pin: "p \<in> set cs" by (simp add: primaries_def)
    then obtain h ss where cs: "cs = h # ss" by (cases cs) auto
    have "h = p"
    proof (rule ccontr)
      assume "h \<noteq> p"
      then have "p \<in> set ss" "createdAt p < createdAt h" using pin first cs by auto
      moreover have "\<forall>x \<in> set ss. createdAt h \<le> createdAt x" using srt cs by simp
      ultimately show False by fastforce
    qed
    then show ?thesis using cs by simp
  qed
  ultimately show ?thesis using srt fr by blast
qed

text \<open>An instance on the example stores.\<close>

theorem formatResponse_chain_witness:
  "getAllContactsInChain [george, biff] one_chain = Inr (george # [biff_absorbed, bridge_row]) \<and>
   primaries (george # [biff_absorbed, bridge_row]) = [george] \<and>
   createdAt george < createdAt biff_absorbed \<and> createdAt george < createdAt bridge_row \<and>
   sorted (map createdAt (george # [biff_absorbed, bridge_row])) \<and>
   formatResponse (george # [biff_absorbed, bridge_row]) =
     Inr \<lparr>primaryContactId = id_c george,
          emails = unique_values (map email (george # [biff_absorbed, bridge_row])),
          phoneNumbers = unique_values (map phoneNumber (george # [biff_absorbed, bridge_row])),
          secondaryContactIds =
            sort (map id_c (filter (\<lambda>c. linkPrecedence c = SECONDARY)
                              (george # [biff_absorbed, bridge_row])))\<rparr> \<and>
   email george = Some ''george@hillvalley.edu'' \<and>
   (\<exists>es. unique_values (map email (george # [biff_absorbed, bridge_row])) =
            ''george@hillvalley.edu'' # es) \<and>
   unique_values (map email (george # [biff_absorbed, bridge_row])) =
     [''george@hillvalley.edu'', ''biffsucks@hillvalley.edu''] \<and>
   sort (map id_c (filter (\<lambda>c. linkPrecedence c = SECONDARY)
                     (george # [biff_absorbed, bridge_row]))) = [2, 3]"
proof -
  have h1: "getAllContactsInChain [george, biff] one_chain = Inr (george # [biff_absorbed, bridge_row])"
    by code_simp
  have h2: "primaries (george # [biff_absorbed, bridge_row]) = [george]" by code_simp
  have e0: "email george = Some ''george@hillvalley.edu''" by (simp add: george_def)
  have c0: "createdAt george < createdAt biff_absorbed" "createdAt george < createdAt bridge_row"
    by code_simp+
  have ne: "''george@hillvalley.edu'' \<noteq> []" by simp
  have e1: "unique_values (map email (george # [biff_absorbed, bridge_row])) =
     [''george@hillvalley.edu'', ''biffsucks@hillvalley.edu'']" by code_simp
  have e2: "sort (map id_c (filter (\<lambda>c. linkPrecedence c = SECONDARY)
                     (george # [biff_absorbed, bridge_row]))) = [2, 3]" by code_simp
  show ?thesis using formatResponse_chain[OF h1 h2] h1 h2 e0 c0 ne e1 e2 by blast
qed

text \<open>
  The primary contact's email does not come first when a secondary contact of the chain
  carries an earlier creation time: \<open>formatResponse\<close> walks the chain in the order of
  the query and moves nothing to the front.
\<close>

theorem formatResponse_chain_counterexample:
  "wf_store late_primary \<and> chain_inv late_primary \<and>
   linkPrecedence doc = PRIMARY \<and> email doc = Some ''doc@hillvalley.edu'' \<and>
   linkPrecedence clara = SECONDARY \<and> linkedId clara = Some (id_c doc) \<and>
   getAllContactsInChain (matching_of doc_phone late_primary) late_primary = Inr [clara, doc] \<and>
   identify 200 doc_phone late_primary =
     (Inr \<lparr>primaryContactId = 1,
           emails = [''clara@hillvalley.edu'', ''doc@hillvalley.edu''],
           phoneNumbers = [''121212''], secondaryContactIds = [2]\<rparr>,
      late_primary)"
proof -
  have "wf_store late_primary" "chain_inv late_primary" by code_simp+
  moreover have "linkPrecedence doc = PRIMARY" "email doc = Some ''doc@hillvalley.edu''"
    "linkPrecedence clara = SECONDARY" "linkedId clara = Some (id_c doc)" by code_simp+
  moreover have "getAllContactsInChain (matching_of doc_phone late_primary) late_primary =
                 Inr [clara, doc]" by code_simp
  moreover have "identify 200 doc_phone late_primary =
     (Inr \<lparr>primaryContactId = 1,
           emails = [''clara@hillvalley.edu'', ''doc@hillvalley.edu''],
           phoneNumbers = [''121212''], secondaryContactIds = [2]\<rparr>,
      late_primary)" by code_simp
  ultimately show ?thesis by blast
qed

text \<open>
  Claim C6, amended. On a well-formed store, a request that carries a non-empty email or
  phone number after sanitizing and whose first run does not fail at response formatting
  can be repeated at once: the second run leaves the store as the first left it (no new
  row, no changed row) and returns what the first returned. And a request whose pair of
  sanitized fields is already that of a live contact adds no row.
\<close>

theorem identify_twice:
  assumes wf: "wf_store s"
    and ne: "truthy (email_r (sanitizeInput data)) \<or> truthy (phoneNumber_r (sanitizeInput data))"
    and ok: "fst (identify now data s) \<noteq> Inl NoPrimaryInChain"
  shows "identify now' data (snd (identify now data s)) =
           (fst (identify now data s), snd (identify now data s)) \<and>
         (list_ex (\<lambda>c. deletedAt c = None \<and> email c = email_r (sanitizeInput data) \<and>
                       phoneNumber c = phoneNumber_r (sanitizeInput data)) (rows s) \<longrightarrow>
          length (rows (snd (identify now data s))) = length (rows s))"
proof -
  have "identify now' data (snd (identify now data s)) =
           (fst (identify now data s), snd (identify now data s))"
  proof (cases "matching_of data s = []")
    case True
    with wf ne show ?thesis by (intro identify_twice_new)
  next
    case False
    show ?thesis
    proof (cases "link_step now (matching_of data s) (sanitizeInput data) s")
      case (Inl e)
      with False show ?thesis by (intro identify_twice_error)
    next
      case (Inr sA)
      with wf False ok show ?thesis by (intro identify_twice_linked)
    qed
  qed
  then show ?thesis using known_combination_no_row[OF _ ne] by blast
qed

text \<open>An instance on the example stores.\<close>

theorem identify_twice_witness:
  "wf_store two_chains \<and>
   (truthy (email_r (sanitizeInput bridge)) \<or> truthy (phoneNumber_r (sanitizeInput bridge))) \<and>
   fst (identify 300 bridge two_chains) \<noteq> Inl NoPrimaryInChain \<and>
   identify 400 bridge (snd (identify 300 bridge two_chains)) =
     (fst (identify 300 bridge two_chains), snd (identify 300 bridge two_chains)) \<and>
   snd (identify 300 bridge two_chains) = one_chain \<and>
   list_ex (\<lambda>c. deletedAt c = None \<and> email c = email_r (sanitizeInput bridge) \<and>
                 phoneNumber c = phoneNumber_r (sanitizeInput bridge)) (rows one_chain) \<and>
   wf_store one_chain \<and>
   fst (identify 400 bridge one_chain) \<noteq> Inl NoPrimaryInChain \<and>
   length (rows (snd (identify 400 bridge one_chain))) = length (rows one_chain)"
proof -
  have wf: "wf_store two_chains" by code_simp
  have ne: "truthy (email_r (sanitizeInput bridge)) \<or> truthy (phoneNumber_r (sanitizeInput bridge))"
    by code_simp
  have ok: "fst (identify 300 bridge two_chains) \<noteq> Inl NoPrimaryInChain"
    by (simp add: identify_bridge_two_chains)
  have s1: "snd (identify 300 bridge two_chains) = one_chain"
    by (simp add: identify_bridge_two_chains)
  have rep: "list_ex (\<lambda>c. deletedAt c = None \<and> email c = email_r (sanitizeInput bridge) \<and>
                 phoneNumber c = phoneNumber_r (sanitizeInput bridge)) (rows one_chain)"
    by code_simp
  have wf1: "wf_store one_chain" by code_simp
  have ok1: "fst (identify 400 bridge one_chain) \<noteq> Inl NoPrimaryInChain"
    by (simp add: identify_bridge_again)
  show ?thesis
    using identify_twice[OF wf ne ok, of 400] identify_twice[OF wf1 ne ok1, of 500]
      wf ne ok s1 rep wf1 ok1
    by blast
qed

text \<open>
  A request without fields matches nothing, not even the contact its first run created:
  the second run creates a second contact and answers with another id.
\<close>

theorem identify_twice_counterexample:
  "rows (snd (identify 1 \<lparr>email_r = None, phoneNumber_r = None\<rparr> empty_store)) =
     [\<lparr>id_c = 1, phoneNumber = None, email = None, linkedId = None,
       linkPrecedence = PRIMARY, createdAt = 1, deletedAt = None\<rparr>] \<and>
   rows (snd (identify 2 \<lparr>email_r = None, phoneNumber_r = None\<rparr>
               (snd (identify 1 \<lparr>email_r = None, phoneNumber_r = None\<rparr> empty_store)))) =
     [\<lparr>id_c = 1, phoneNumber = None, email = None, linkedId = None,
       linkPrecedence = PRIMARY, createdAt = 1, deletedAt = None\<rparr>,
      \<lparr>id_c = 2, phoneNumber = None, email = None, linkedId = None,
       linkPrecedence = PRIMARY, createdAt = 2, deletedAt = None\<rparr>] \<and>
   fst (identify 2 \<lparr>email_r = None, phoneNumber_r = None\<rparr>
          (snd (identify 1 \<lparr>email_r = None, phoneNumber_r = None\<rparr> empty_store))) \<noteq>
   fst (identify 1 \<lparr>email_r = None, phoneNumber_r = None\<rparr> empty_store)"
  by code_simp

text \<open>
  Claim C7. A request fails, with one of the three errors of the service, exactly when the
  matching set holds only secondary contacts none of whose links names a live primary
  contact, or the chain read for the response holds no primary contact.
\<close>

theorem identify_error_iff:
  "(\<exists>e. fst (identify now data s) = Inl e) \<longleftrightarrow>
     orphaned_secondaries (matching_of data s) s \<or>
     (\<exists>ch. response_chain now data s = Inr ch \<and> \<not> list_ex (\<lambda>c. linkPrecedence c = PRIMARY) ch)"
proof (cases "matching_of data s = []")
  case True
  then show ?thesis
    by (simp add: identify_steps handleNewContact_eq orphaned_secondaries_def response_chain_def
        create_def Let_def)
next
  case False
  then show ?thesis
    using identify_error_iff_aux[OF False, of now] by (simp add: response_chain_def)
qed

text \<open>An instance on the example stores.\<close>

theorem identify_error_iff_witness:
  "(\<exists>e. fst (identify 60 twin_bridge twins) = Inl e) \<and>
   \<not> orphaned_secondaries (matching_of twin_bridge twins) twins \<and>
   (\<exists>ch. response_chain 60 twin_bridge twins = Inr ch \<and>
         \<not> list_ex (\<lambda>c. linkPrecedence c = PRIMARY) ch) \<and>
   (\<exists>e. fst (identify 60 phone_only orphaned) = Inl e) \<and>
   orphaned_secondaries (matching_of phone_only orphaned) orphaned \<and>
   fst (identify 60 phone_only orphaned) = Inl NoPrimaryContactFound"
proof -
  have "fst (identify 60 twin_bridge twins) = Inl NoPrimaryInChain"
    by (simp add: identify_twin_bridge)
  then have l: "\<exists>e. fst (identify 60 twin_bridge twins) = Inl e" by blast
  have n: "\<not> orphaned_secondaries (matching_of twin_bridge twins) twins" by code_simp
  have o: "orphaned_secondaries (matching_of phone_only orphaned) orphaned" by code_simp
  have e: "fst (identify 60 phone_only orphaned) = Inl NoPrimaryContactFound" by code_simp
  show ?thesis
    using identify_error_iff[of 60 twin_bridge twins] identify_error_iff[of 60 phone_only orphaned]
      l n o e
    by blast
qed

text \<open>
  Claim C8. A request whose sanitized fields match no live contact creates exactly one
  contact, a primary one that carries the sanitized fields, and the response names its id
  and no secondary contact.
\<close>

theorem identify_new_identity:
  assumes "matching_of data s = []"
  shows "identify now data s =
           (Inr \<lparr>primaryContactId = nextId s,
                 emails = unique_values [email_r (sanitizeInput data)],
                 phoneNumbers = unique_values [phoneNumber_r (sanitizeInput data)],
                 secondaryContactIds = []\<rparr>,
            s\<lparr>rows := rows s @
                 [\<lparr>id_c = nextId s, phoneNumber = phoneNumber_r (sanitizeInput data),
                   email = email_r (sanitizeInput data), linkedId = None,
                   linkPrecedence = PRIMARY, createdAt = now, deletedAt = None\<rparr>],
              nextId := Suc (nextId s)\<rparr>)"
  using assms by (simp add: identify_steps handleNewContact_eq new_primary_def)

text \<open>An instance on the example stores.\<close>

theorem identify_new_identity_witness:
  "matching_of bridge empty_store = [] \<and>
   identify 300 bridge empty_store =
     (Inr \<lparr>primaryContactId = nextId empty_store,
           emails = unique_values [email_r (sanitizeInput bridge)],
           phoneNumbers = unique_values [phoneNumber_r (sanitizeInput bridge)],
           secondaryContactIds = []\<rparr>,
      empty_store\<lparr>rows := rows empty_store @
           [\<lparr>id_c = nextId empty_store, phoneNumber = phoneNumber_r (sanitizeInput bridge),
             email = email_r (sanitizeInput bridge), linkedId = None,
             linkPrecedence = PRIMARY, createdAt = 300, deletedAt = None\<rparr>],
        nextId := Suc (nextId empty_store)\<rparr>) \<and>
   sanitizeInput bridge =
     \<lparr>email_r = Some ''george@hillvalley.edu'', phoneNumber_r = Some ''717171''\<rparr>"
proof -
  have h: "matching_of bridge empty_store = []" by code_simp
  have e: "sanitizeInput bridge =
     \<lparr>email_r = Some ''george@hillvalley.edu'', phoneNumber_r = Some ''717171''\<rparr>" by code_simp
  show ?thesis using identify_new_identity[OF h, of 300] h e by blast
qed




text \<open>
  Claim C10. A request with neither field raises no error: the matching query gives the
  empty list, a primary contact without email and phone number is created, and the
  response carries its id and three empty lists.
\<close>

theorem identify_no_fields:
  "findMatchingContacts None None s = [] \<and>
   identify now \<lparr>email_r = None, phoneNumber_r = None\<rparr> s =
     (Inr \<lparr>primaryContactId = nextId s, emails = [], phoneNumbers = [], secondaryContactIds = []\<rparr>,
      s\<lparr>rows := rows s @ [\<lparr>id_c = nextId s, phoneNumber = None, email = None, linkedId = None,
                            linkPrecedence = PRIMARY, createdAt = now, deletedAt = None\<rparr>],
        nextId := Suc (nextId s)\<rparr>)"
  by (simp add: identify_steps matching_of_def sanitizeInput_def findMatchingContacts_def
      handleNewContact_eq unique_values_def new_primary_def)

text \<open>An instance on the example stores.\<close>

theorem identify_no_fields_witness:
  "findMatchingContacts None None two_chains = [] \<and>
   identify 300 \<lparr>email_r = None, phoneNumber_r = None\<rparr> two_chains =
     (Inr \<lparr>primaryContactId = 3, emails = [], phoneNumbers = [], secondaryContactIds = []\<rparr>,
      \<lparr>rows = [george, biff,
               \<lparr>id_c = 3, phoneNumber = None, email = None, linkedId = None,
                linkPrecedence = PRIMARY, createdAt = 300, deletedAt = None\<rparr>],
        nextId = 4\<rparr>)"
  using identify_no_fields[of two_chains 300] by (simp add: two_chains_def)

end
